theory Spec2Isabelle
  imports Main "HOL-Library.Word"
begin

section \<open>Hash: a 32-byte primitive and its serialization\<close>

type_synonym byte = "8 word"
type_synonym bytes = "byte list"

datatype error = AssertionError | TypeError | RangeError | InvalidLength

text \<open>
  Modelled from the spec: the classes \<open>Buffer\<close> and \<open>Primitive\<close> that \<open>Hash\<close> builds on
  are not among the sources, and the specification only calls a hash a "fixed-size hash".
  They are modelled by the contract that \<open>Hash\<close> relies on. A \<open>Buffer\<close> is a byte array
  of fixed length with a read position and a separate write position, both starting at 0:
  \<open>new Buffer(n)\<close> has \<open>n\<close> zero bytes; \<open>write\<close> copies an array in at the write position
  and advances it, and fails when the array does not fit; \<open>read(n)\<close> returns the (at most
  \<open>n\<close>) bytes from the read position on and advances it. \<open>Primitive\<close>'s constructor keeps
  the bytes it is given and refuses any array whose length is not the declared one.
\<close>

record buffer =
  buf_bytes :: bytes
  readPos :: nat
  writePos :: nat

definition new_Buffer :: "nat \<Rightarrow> buffer" where
  "new_Buffer n = \<lparr>buf_bytes = replicate n 0, readPos = 0, writePos = 0\<rparr>"

definition buf_write :: "buffer \<Rightarrow> bytes \<Rightarrow> error + buffer" where
  "buf_write buf arr =
     (if writePos buf + length arr > length (buf_bytes buf) then Inl RangeError
      else Inr (buf\<lparr>buf_bytes := take (writePos buf) (buf_bytes buf) @ arr
                                   @ drop (writePos buf + length arr) (buf_bytes buf),
                    writePos := writePos buf + length arr\<rparr>))"

definition buf_read :: "buffer \<Rightarrow> nat \<Rightarrow> bytes \<times> buffer" where
  "buf_read buf n =
     (take n (drop (readPos buf) (buf_bytes buf)), buf\<lparr>readPos := readPos buf + n\<rparr>)"

definition new_Primitive :: "bytes \<Rightarrow> nat \<Rightarrow> error + bytes" where
  "new_Primitive arg len = (if length arg \<noteq> len then Inl InvalidLength else Inr arg)"

text \<open>The class \<open>Hash\<close> itself, from the source.\<close>

datatype hash = Hash (hash_bytes: bytes)

definition SERIALIZED_SIZE :: nat where
  "SERIALIZED_SIZE = 32"

definition new_Hash :: "bytes \<Rightarrow> error + hash" where
  "new_Hash arg =
     (case new_Primitive arg SERIALIZED_SIZE of Inl e \<Rightarrow> Inl e | Inr b \<Rightarrow> Inr (Hash b))"

definition serializedSize :: "hash \<Rightarrow> nat" where
  "serializedSize h = SERIALIZED_SIZE"

definition unserialize :: "buffer \<Rightarrow> error + hash \<times> buffer" where
  "unserialize buf =
     (case buf_read buf SERIALIZED_SIZE of
        (arr, buf') \<Rightarrow> (case new_Hash arr of Inl e \<Rightarrow> Inl e | Inr h \<Rightarrow> Inr (h, buf')))"

definition serialize :: "hash \<Rightarrow> buffer option \<Rightarrow> error + buffer" where
  "serialize h buf =
     (let buf = (case buf of None \<Rightarrow> new_Buffer (serializedSize h) | Some b \<Rightarrow> b)
      in buf_write buf (hash_bytes h))"


section \<open>NetworkAgent: data\<close>

type_synonym nonce32 = "32 word"

datatype protocol = DUMB | WS | RTC

text \<open>
  Modelled from the spec: the class \<open>PeerAddress\<close> is not among the sources. An address
  is "a signed record identifying a remote node: protocol, network locator, services
  bitmask, timestamp, signature, and a derived peer id". The fields the agent reads are
  kept; the results of the methods \<open>isSeed()\<close>, \<open>verifySignature()\<close> and
  \<open>globallyReachable()\<close> are fields of the record. The identity of an address (what
  \<open>equals\<close> compares and what the \<open>HashSet\<close> keys on) is its protocol together with
  its peer id.
\<close>

record peer_address =
  protocol :: protocol
  peerId :: bytes
  distance :: nat
  timestamp :: int
  netAddress :: "nat option"
  isSeed :: bool
  verifySignature :: bool
  globallyReachable :: bool

definition hashCode :: "peer_address \<Rightarrow> protocol \<times> bytes" where
  "hashCode a = (protocol a, peerId a)"

definition equals :: "peer_address \<Rightarrow> peer_address \<Rightarrow> bool" where
  "equals a b = (hashCode a = hashCode b)"

text \<open>
  Modelled from the spec: \<open>HashSet\<close> is not among the sources; \<open>knownAddresses\<close> is a
  "set of address records (keyed by address identity)" where an insertion overwrites
  "any prior entry". It is a map from the key of an address to the stored record.
\<close>

type_synonym hash_set = "protocol \<times> bytes \<rightharpoonup> peer_address"

definition hs_get :: "hash_set \<Rightarrow> peer_address \<Rightarrow> peer_address option" where
  "hs_get m a = m (hashCode a)"

definition hs_add :: "hash_set \<Rightarrow> peer_address \<Rightarrow> hash_set" where
  "hs_add m a = m(hashCode a \<mapsto> a)"

definition hs_contains :: "hash_set \<Rightarrow> peer_address \<Rightarrow> bool" where
  "hs_contains m a = (m (hashCode a) \<noteq> None)"

text \<open>
  Modelled from the spec: the crypto primitives ("signature creation/verification",
  "peer-id derivation from public key") are not among the sources. A public key carries
  the peer id derived from it; a signature records the key it was made for and the data
  it signs, and verifies against exactly those.
\<close>

record public_key =
  key_bytes :: bytes
  toPeerId :: bytes

record signature =
  signer :: public_key
  signed_data :: bytes

record key_pair =
  privateKey :: bytes
  publicKey :: public_key

definition Signature_create :: "bytes \<Rightarrow> public_key \<Rightarrow> bytes \<Rightarrow> signature" where
  "Signature_create priv pub data = \<lparr>signer = pub, signed_data = data\<rparr>"

definition verify :: "signature \<Rightarrow> public_key \<Rightarrow> bytes \<Rightarrow> bool" where
  "verify sig pub data = (signer sig = pub \<and> signed_data sig = data)"

definition concatTypedArrays :: "bytes \<Rightarrow> bytes \<Rightarrow> bytes" where
  "concatTypedArrays a b = a @ b"

record network_config =
  cfg_peerAddress :: peer_address
  keyPair :: key_pair
  protocolMask :: nat
  services_accepted :: nat

record peer =
  peer_version :: nat
  peer_headHash :: bytes
  timeOffset :: int

text \<open>The inbound messages the agent listens to, and \<open>Message.Type\<close>.\<close>

record version_message =
  msg_version :: nat
  msg_peerAddress :: peer_address
  msg_genesisHash :: bytes
  msg_headHash :: bytes
  msg_challengeNonce :: bytes

record verack_message =
  msg_publicKey :: public_key
  msg_signature :: signature

datatype message =
    VersionMessage version_message
  | VerAckMessage verack_message
  | AddrMessage "peer_address list"
  | GetAddrMessage nat nat
  | PingMessage nonce32
  | PongMessage nonce32

datatype msg_type = VERSION | VERACK | ADDR | GET_ADDR | PING | PONG

fun type_of :: "message \<Rightarrow> msg_type" where
  "type_of (VersionMessage m) = VERSION"
| "type_of (VerAckMessage m) = VERACK"
| "type_of (AddrMessage as) = ADDR"
| "type_of (GetAddrMessage pm sm) = GET_ADDR"
| "type_of (PingMessage n) = PING"
| "type_of (PongMessage n) = PONG"

datatype close_type =
    SENDING_OF_VERSION_MESSAGE_FAILED | VERSION_TIMEOUT | VERACK_TIMEOUT
  | INCOMPATIBLE_VERSION | DIFFERENT_GENESIS_BLOCK
  | INVALID_PEER_ADDRESS_IN_VERSION_MESSAGE | UNEXPECTED_PEER_ADDRESS_IN_VERSION_MESSAGE
  | INVALID_PUBLIC_KEY_IN_VERACK_MESSAGE | INVALID_SIGNATURE_IN_VERACK_MESSAGE
  | ADDR_MESSAGE_TOO_LARGE | RATE_LIMIT_EXCEEDED | INVALID_ADDR
  | ADDR_NOT_GLOBALLY_REACHABLE | SENDING_PING_MESSAGE_FAILED | PING_TIMEOUT

datatype reject_code = REJECT_OBSOLETE

text \<open>
  The calls the agent makes on its channel. The channel is an external collaborator:
  each call is recorded as an effect, and what a send returns is read from the
  environment (\<open>send_ok\<close> below).
\<close>

datatype channel_call =
    Version peer_address bytes bytes
  | VerAck public_key signature
  | Addr "peer_address list"
  | GetAddr nat nat
  | Ping nonce32
  | Pong nonce32
  | Reject msg_type reject_code
  | Close close_type

text \<open>
  Timer names. The source uses the strings \<open>version\<close>, \<open>verack\<close>, \<open>connectivity\<close>,
  \<open>announce-addr\<close> and \<open>ping_<nonce>\<close>; the last is the constructor \<open>T_ping\<close> applied
  to the nonce.
\<close>

datatype timer_key = T_version | T_verack | T_connectivity | T_announce_addr | T_ping nonce32

text \<open>
  The agent's own fields, plus \<open>channel_peerAddress\<close>, the \<open>peerAddress\<close> property of the
  channel, which the agent reads and assigns.

  Modelled from the spec: \<open>Timers\<close> is not among the sources. It is the "named timer
  registry": two maps from a name to the delay it was set with, one for one-shot
  timeouts and one for intervals; "setting a timer under an existing name replaces the
  prior one".
\<close>

record agent =
  networkConfig :: network_config
  channel_peerAddress :: "peer_address option"
  peer :: "peer option"
  knownAddresses :: hash_set
  timeouts :: "timer_key \<rightharpoonup> int"
  intervals :: "timer_key \<rightharpoonup> int"
  versionReceived :: bool
  verackReceived :: bool
  versionSent :: bool
  verackSent :: bool
  versionAttempts :: nat
  peerAddressVerified :: bool
  peerChallengeNonce :: "bytes option"
  pingTimes :: "nonce32 \<rightharpoonup> int"
  challengeNonce :: bytes

text \<open>
  Everything a handler does to the outside: calls on the channel, observer events
  (\<open>fire\<close>, whose last argument is the agent itself, here the agent's fields at that
  moment), calls on the relay queue, the inbound rate limiter and the address book,
  and the global \<open>setTimeout\<close> that retries \<open>handshake\<close>.
\<close>

datatype effect =
    Channel channel_call
  | Fire_version "peer option" agent
  | Fire_handshake "peer option" agent
  | Fire_addr "peer_address list" agent
  | Fire_ping_pong int
  | AddrQueue_enqueue peer_address
  | AddrQueue_stop
  | AddrLimit_note nat
  | Addresses_add "peer_address list"
  | SetTimeout_handshake int

text \<open>
  What a handler reads from the outside while it runs: the clock, the blockchain head,
  the result of each channel send, the channel's \<open>closed\<close> flag at the two places it
  is read, the channel's \<open>lastMessageReceivedAt\<close>, the random nonce, the address book's
  answers, the inbound rate limiter's answer to \<open>note(n)\<close>, and the constants and
  predicates of classes that are not among the sources (\<open>Version.isCompatible\<close>,
  \<open>GenesisConfig.GENESIS_HASH\<close>, \<open>PeerAddressBook.MAX_DISTANCE\<close>). One handler run
  reads one clock value.
\<close>

record env =
  now :: int
  headHash :: bytes
  send_ok :: "channel_call \<Rightarrow> bool"
  closed_in_handshake :: bool
  closed_in_onVersion :: bool
  lastMessageReceivedAt :: int
  randomUint32 :: nonce32
  addresses_get :: "peer_address \<Rightarrow> peer_address option"
  addresses_query :: "nat \<Rightarrow> nat \<Rightarrow> nat \<Rightarrow> peer_address list"
  addrLimit_note :: "nat \<Rightarrow> bool"
  isCompatible :: "nat \<Rightarrow> bool"
  GENESIS_HASH :: bytes
  MAX_DISTANCE :: nat

text \<open>
  The constants of \<open>NetworkAgent\<close>, times in milliseconds. \<open>NetworkAgent.PING_TIMEOUT\<close> is
  \<open>PING_TIMEOUT_MS\<close> here, since \<open>PING_TIMEOUT\<close> is also the name of a close reason.
\<close>

definition HANDSHAKE_TIMEOUT :: int where "HANDSHAKE_TIMEOUT = 1000 * 4"
definition PING_TIMEOUT_MS :: int where "PING_TIMEOUT_MS = 1000 * 10"
definition CONNECTIVITY_CHECK_INTERVAL :: int where "CONNECTIVITY_CHECK_INTERVAL = 1000 * 60"
definition ANNOUNCE_ADDR_INTERVAL :: int where "ANNOUNCE_ADDR_INTERVAL = 1000 * 60 * 5"
definition RELAY_THROTTLE :: int where "RELAY_THROTTLE = 1000 * 60 * 2"
definition VERSION_ATTEMPTS_MAX :: nat where "VERSION_ATTEMPTS_MAX = 10"
definition VERSION_RETRY_DELAY :: int where "VERSION_RETRY_DELAY = 500"
definition MAX_ADDR_PER_MESSAGE :: nat where "MAX_ADDR_PER_MESSAGE = 1000"
definition MAX_ADDR_RELAY_PER_MESSAGE :: nat where "MAX_ADDR_RELAY_PER_MESSAGE = 10"

text \<open>The constructor: every flag false, every container empty.\<close>

definition NetworkAgent :: "network_config \<Rightarrow> peer_address option \<Rightarrow> bytes \<Rightarrow> agent" where
  "NetworkAgent cfg channel_pa nonce =
     \<lparr>networkConfig = cfg, channel_peerAddress = channel_pa, peer = None,
      knownAddresses = Map.empty, timeouts = Map.empty, intervals = Map.empty,
      versionReceived = False, verackReceived = False, versionSent = False,
      verackSent = False, versionAttempts = 0, peerAddressVerified = False,
      peerChallengeNonce = None, pingTimes = Map.empty, challengeNonce = nonce\<rparr>"


section \<open>NetworkAgent: handlers\<close>

text \<open>
  A handler takes the agent's state and returns the new state with the effects it
  caused, in order, or the exception that escaped it.
\<close>

type_synonym result = "error + agent \<times> effect list"

definition ret :: "agent \<Rightarrow> result" where
  "ret s = Inr (s, [])"

definition emit :: "effect list \<Rightarrow> agent \<Rightarrow> result" where
  "emit es s = Inr (s, es)"

definition andThen :: "result \<Rightarrow> (agent \<Rightarrow> result) \<Rightarrow> result" where
  "andThen r f =
     (case r of
        Inl e \<Rightarrow> Inl e
      | Inr (s, es) \<Rightarrow> (case f s of Inl e \<Rightarrow> Inl e | Inr (s', es') \<Rightarrow> Inr (s', es @ es')))"

definition setTimeout :: "timer_key \<Rightarrow> int \<Rightarrow> agent \<Rightarrow> agent" where
  "setTimeout k d s = s\<lparr>timeouts := (timeouts s)(k \<mapsto> d)\<rparr>"

definition clearTimeout :: "timer_key \<Rightarrow> agent \<Rightarrow> agent" where
  "clearTimeout k s = s\<lparr>timeouts := (timeouts s)(k := None)\<rparr>"

definition setInterval :: "timer_key \<Rightarrow> int \<Rightarrow> agent \<Rightarrow> agent" where
  "setInterval k d s = s\<lparr>intervals := (intervals s)(k \<mapsto> d)\<rparr>"

definition clearAll :: "agent \<Rightarrow> agent" where
  "clearAll s = s\<lparr>timeouts := Map.empty, intervals := Map.empty\<rparr>"

definition canAcceptMessage :: "agent \<Rightarrow> msg_type \<Rightarrow> bool" where
  "canAcceptMessage s t =
     (if \<not> versionReceived s \<and> t \<noteq> VERSION then False
      else if versionReceived s \<and> \<not> verackReceived s \<and> t \<noteq> VERACK then False
      else True)"

definition relayAddresses :: "peer_address list \<Rightarrow> agent \<Rightarrow> result" where
  "relayAddresses addresses s =
     (if \<not> verackReceived s \<or> \<not> versionSent s then ret s
      else emit (map AddrQueue_enqueue addresses) s)"

text \<open>
  Modelled from the spec: \<open>ThrottledQueue\<close> is not among the sources. When the queue
  fires its callback, \<open>dequeueMulti(n)\<close> hands back at most \<open>n\<close> of the addresses the
  queue releases ("dequeue up to \<open>MAX_ADDR_RELAY_PER_MESSAGE\<close> items").
\<close>

definition dequeueMulti :: "peer_address list \<Rightarrow> nat \<Rightarrow> peer_address list" where
  "dequeueMulti released n = take n released"

definition relay_filter :: "env \<Rightarrow> agent \<Rightarrow> peer_address \<Rightarrow> bool" where
  "relay_filter e s addr =
     (if protocol addr = RTC \<and> distance addr \<ge> MAX_DISTANCE e then False
      else if protocol addr = DUMB then False
      else (case hs_get (knownAddresses s) addr of
              None \<Rightarrow> \<not> isSeed addr
            | Some knownAddress \<Rightarrow>
                \<not> isSeed addr
                \<and> ((protocol addr = RTC \<and> distance knownAddress > distance addr)
                   \<or> timestamp knownAddress < now e - RELAY_THROTTLE)))"

definition relayNow :: "env \<Rightarrow> peer_address list \<Rightarrow> agent \<Rightarrow> result" where
  "relayNow e released s =
     (let addresses = dequeueMulti released MAX_ADDR_RELAY_PER_MESSAGE in
      if length addresses = 0 then ret s
      else let filteredAddresses = filter (relay_filter e s) addresses in
        if filteredAddresses \<noteq> []
        then emit [Channel (Addr filteredAddresses)]
               (s\<lparr>knownAddresses := fold (\<lambda>a m. hs_add m a) filteredAddresses (knownAddresses s)\<rparr>)
        else ret s)"

definition sendVerAck :: "agent \<Rightarrow> result" where
  "sendVerAck s =
     (if \<not> peerAddressVerified s then Inl AssertionError
      else case channel_peerAddress s of
        None \<Rightarrow> Inl TypeError
      | Some pa \<Rightarrow>
          (case peerChallengeNonce s of
             None \<Rightarrow> Inl TypeError
           | Some nonce \<Rightarrow>
               let data = concatTypedArrays (peerId pa) nonce;
                   kp = keyPair (networkConfig s);
                   sig = Signature_create (privateKey kp) (publicKey kp) data
               in emit [Channel (VerAck (publicKey kp) sig)] (s\<lparr>verackSent := True\<rparr>)))"

definition handshake :: "env \<Rightarrow> agent \<Rightarrow> result" where
  "handshake e s =
     (if versionSent s then ret s
      else let v = Version (cfg_peerAddress (networkConfig s)) (headHash e) (challengeNonce s) in
        if \<not> send_ok e v then
          (let s1 = s\<lparr>versionAttempts := versionAttempts s + 1\<rparr> in
           if versionAttempts s1 \<ge> VERSION_ATTEMPTS_MAX \<or> closed_in_handshake e
           then emit [Channel v, Channel (Close SENDING_OF_VERSION_MESSAGE_FAILED)] s1
           else emit [Channel v, SetTimeout_handshake VERSION_RETRY_DELAY] s1)
        else
          andThen (emit [Channel v] (s\<lparr>versionSent := True\<rparr>)) (\<lambda>s1.
          andThen (if \<not> versionReceived s1 then ret (setTimeout T_version HANDSHAKE_TIMEOUT s1)
                   else if peerAddressVerified s1 then sendVerAck s1
                   else ret s1) (\<lambda>s2.
          ret (setTimeout T_verack (HANDSHAKE_TIMEOUT * 2) s2))))"

definition requestAddresses :: "agent \<Rightarrow> result" where
  "requestAddresses s =
     emit [Channel (GetAddr (protocolMask (networkConfig s))
                            (services_accepted (networkConfig s)))] s"

definition finishHandshake :: "agent \<Rightarrow> result" where
  "finishHandshake s =
     (let s1 = setInterval T_connectivity CONNECTIVITY_CHECK_INTERVAL s;
          s2 = setInterval T_announce_addr ANNOUNCE_ADDR_INTERVAL s1
      in andThen (emit [Fire_handshake (peer s2) s2] s2) requestAddresses)"

definition onVersion :: "env \<Rightarrow> version_message \<Rightarrow> agent \<Rightarrow> result" where
  "onVersion e msg s =
     (if \<not> canAcceptMessage s VERSION then ret s
      else if versionReceived s then ret s
      else let s1 = clearTimeout T_version s in
        if \<not> isCompatible e (msg_version msg)
        then emit [Channel (Reject VERSION REJECT_OBSOLETE), Channel (Close INCOMPATIBLE_VERSION)] s1
        else if GENESIS_HASH e \<noteq> msg_genesisHash msg
        then emit [Channel (Close DIFFERENT_GENESIS_BLOCK)] s1
        else if \<not> verifySignature (msg_peerAddress msg)
        then emit [Channel (Close INVALID_PEER_ADDRESS_IN_VERSION_MESSAGE)] s1
        else let peerAddress = msg_peerAddress msg in
          if (case channel_peerAddress s1 of None \<Rightarrow> False
              | Some expected \<Rightarrow> \<not> equals expected peerAddress)
          then emit [Channel (Close UNEXPECTED_PEER_ADDRESS_IN_VERSION_MESSAGE)] s1
          else let
            s2 = (if channel_peerAddress s1 \<noteq> None then s1\<lparr>peerAddressVerified := True\<rparr> else s1);
            peerAddress' =
              (if netAddress peerAddress = None
               then (case addresses_get e peerAddress of
                       None \<Rightarrow> peerAddress
                     | Some storedAddress \<Rightarrow>
                         if netAddress storedAddress \<noteq> None
                         then peerAddress\<lparr>netAddress := netAddress storedAddress\<rparr>
                         else peerAddress)
               else peerAddress);
            s3 = s2\<lparr>channel_peerAddress := Some peerAddress',
                    peer := Some \<lparr>peer_version = msg_version msg,
                                  peer_headHash = msg_headHash msg,
                                  timeOffset = timestamp peerAddress' - now e\<rparr>,
                    peerChallengeNonce := Some (msg_challengeNonce msg),
                    versionReceived := True\<rparr>
          in andThen (emit [Fire_version (peer s3) s3] s3) (\<lambda>s4.
               if closed_in_onVersion e then ret s4
               else if \<not> versionSent s4 then handshake e s4
               else andThen (if peerAddressVerified s4 then sendVerAck s4 else ret s4) (\<lambda>s5.
                    if verackReceived s5 then finishHandshake s5 else ret s5)))"

definition onVerAck :: "verack_message \<Rightarrow> agent \<Rightarrow> result" where
  "onVerAck msg s =
     (if \<not> canAcceptMessage s VERACK then ret s
      else if verackReceived s then ret s
      else let s1 = clearTimeout T_verack s in
        case channel_peerAddress s1 of
          None \<Rightarrow> Inl TypeError
        | Some remote \<Rightarrow>
            if toPeerId (msg_publicKey msg) \<noteq> peerId remote
            then emit [Channel (Close INVALID_PUBLIC_KEY_IN_VERACK_MESSAGE)] s1
            else let data = concatTypedArrays (peerId (cfg_peerAddress (networkConfig s1)))
                                              (challengeNonce s1) in
              if \<not> verify (msg_signature msg) (msg_publicKey msg) data
              then emit [Channel (Close INVALID_SIGNATURE_IN_VERACK_MESSAGE)] s1
              else
                andThen (if \<not> peerAddressVerified s1
                         then sendVerAck (s1\<lparr>peerAddressVerified := True\<rparr>)
                         else ret s1) (\<lambda>s2.
                case channel_peerAddress s2 of
                  None \<Rightarrow> Inl TypeError
                | Some remote2 \<Rightarrow>
                    let s3 = s2\<lparr>knownAddresses := hs_add (knownAddresses s2) remote2,
                                verackReceived := True\<rparr>
                    in if verackSent s3 then finishHandshake s3 else ret s3))"

text \<open>
  The loop of \<open>_onAddr\<close> over the batch: it stops at the first address that fails a
  check and gives the close reason; the addresses before it are already in
  \<open>knownAddresses\<close>.
\<close>

fun checkAddresses :: "peer_address list \<Rightarrow> agent \<Rightarrow> agent \<times> close_type option" where
  "checkAddresses [] s = (s, None)"
| "checkAddresses (addr # rest) s =
     (if \<not> verifySignature addr then (s, Some INVALID_ADDR)
      else if protocol addr = WS \<and> \<not> globallyReachable addr
      then (s, Some ADDR_NOT_GLOBALLY_REACHABLE)
      else checkAddresses rest (s\<lparr>knownAddresses := hs_add (knownAddresses s) addr\<rparr>))"

definition onAddr :: "env \<Rightarrow> peer_address list \<Rightarrow> agent \<Rightarrow> result" where
  "onAddr e addresses s =
     (if \<not> canAcceptMessage s ADDR then ret s
      else if length addresses > MAX_ADDR_PER_MESSAGE
      then emit [Channel (Close ADDR_MESSAGE_TOO_LARGE)] s
      else if \<not> addrLimit_note e (length addresses)
      then emit [AddrLimit_note (length addresses), Channel (Close RATE_LIMIT_EXCEEDED)] s
      else (case checkAddresses addresses s of
              (s', Some reason) \<Rightarrow>
                emit [AddrLimit_note (length addresses), Channel (Close reason)] s'
            | (s', None) \<Rightarrow>
                emit [AddrLimit_note (length addresses), Addresses_add addresses,
                      Fire_addr addresses s'] s'))"

definition getAddr_filter :: "env \<Rightarrow> agent \<Rightarrow> peer_address \<Rightarrow> bool" where
  "getAddr_filter e s addr =
     (if protocol addr = RTC \<and> distance addr \<ge> MAX_DISTANCE e then False
      else (case hs_get (knownAddresses s) addr of
              None \<Rightarrow> True
            | Some knownAddress \<Rightarrow> timestamp knownAddress < now e - RELAY_THROTTLE))"

definition onGetAddr :: "env \<Rightarrow> nat \<Rightarrow> nat \<Rightarrow> agent \<Rightarrow> result" where
  "onGetAddr e pMask sMask s =
     (if \<not> canAcceptMessage s GET_ADDR then ret s
      else let addresses = addresses_query e pMask sMask MAX_ADDR_PER_MESSAGE;
               filteredAddresses = filter (getAddr_filter e s) addresses
           in if filteredAddresses \<noteq> [] then emit [Channel (Addr filteredAddresses)] s
              else ret s)"

definition checkConnectivity :: "env \<Rightarrow> agent \<Rightarrow> result" where
  "checkConnectivity e s =
     (let nonce = randomUint32 e in
      if \<not> send_ok e (Ping nonce)
      then emit [Channel (Ping nonce), Channel (Close SENDING_PING_MESSAGE_FAILED)] s
      else let startTime = now e;
               s1 = s\<lparr>pingTimes := (pingTimes s)(nonce \<mapsto> startTime)\<rparr>
           in if lastMessageReceivedAt e < startTime - CONNECTIVITY_CHECK_INTERVAL
              then emit [Channel (Ping nonce)] (setTimeout (T_ping nonce) PING_TIMEOUT_MS s1)
              else emit [Channel (Ping nonce)] s1)"

definition onPing :: "nonce32 \<Rightarrow> agent \<Rightarrow> result" where
  "onPing nonce s =
     (if \<not> canAcceptMessage s PING then ret s
      else emit [Channel (Pong nonce)] s)"

definition onPong :: "env \<Rightarrow> nonce32 \<Rightarrow> agent \<Rightarrow> result" where
  "onPong e nonce s =
     (let s1 = clearTimeout (T_ping nonce) s in
      case pingTimes s1 nonce of
        None \<Rightarrow> ret s1
      | Some startTime \<Rightarrow>
          if startTime \<noteq> 0
          then (let delta = now e - startTime;
                    s2 = s1\<lparr>pingTimes := (pingTimes s1)(nonce := None)\<rparr>
                in if delta > 0 then emit [Fire_ping_pong delta] s2 else ret s2)
          else ret s1)"

definition onClose :: "agent \<Rightarrow> result" where
  "onClose s = emit [AddrQueue_stop] (clearAll s)"

text \<open>The callbacks the agent registers under each timer name.\<close>

fun timeout_callback :: "timer_key \<Rightarrow> agent \<Rightarrow> result" where
  "timeout_callback T_version s =
     emit [Channel (Close VERSION_TIMEOUT)] (clearTimeout T_version s)"
| "timeout_callback T_verack s =
     emit [Channel (Close VERACK_TIMEOUT)] (clearTimeout T_verack s)"
| "timeout_callback (T_ping nonce) s =
     (let s1 = clearTimeout (T_ping nonce) s
      in emit [Channel (Close PING_TIMEOUT)] (s1\<lparr>pingTimes := (pingTimes s1)(nonce := None)\<rparr>))"
| "timeout_callback T_connectivity s = ret s"
| "timeout_callback T_announce_addr s = ret s"

fun interval_callback :: "env \<Rightarrow> timer_key \<Rightarrow> agent \<Rightarrow> result" where
  "interval_callback e T_connectivity s = checkConnectivity e s"
| "interval_callback e T_announce_addr s =
     emit [Channel (Addr [cfg_peerAddress (networkConfig s)])] s"
| "interval_callback e T_version s = ret s"
| "interval_callback e T_verack s = ret s"
| "interval_callback e (T_ping nonce) s = ret s"

section \<open>NetworkAgent: the event loop\<close>

text \<open>
  The agent is driven by events, each handled to completion: a call of \<open>handshake()\<close>
  (from outside or by the retry timer), a call of \<open>relayAddresses\<close>, the relay queue
  firing with the addresses it releases, an inbound message, a pending timeout or
  interval firing, and the channel closing. A timer that is not pending does not fire.
\<close>

datatype event =
    Call_handshake
  | Call_relayAddresses "peer_address list"
  | AddrQueue_fires "peer_address list"
  | Receive message
  | Timeout_fires timer_key
  | Interval_fires timer_key
  | Channel_closes

fun onMessage :: "env \<Rightarrow> message \<Rightarrow> agent \<Rightarrow> result" where
  "onMessage e (VersionMessage msg) s = onVersion e msg s"
| "onMessage e (VerAckMessage msg) s = onVerAck msg s"
| "onMessage e (AddrMessage addresses) s = onAddr e addresses s"
| "onMessage e (GetAddrMessage pMask sMask) s = onGetAddr e pMask sMask s"
| "onMessage e (PingMessage nonce) s = onPing nonce s"
| "onMessage e (PongMessage nonce) s = onPong e nonce s"

fun step :: "env \<Rightarrow> event \<Rightarrow> agent \<Rightarrow> result" where
  "step e Call_handshake s = handshake e s"
| "step e (Call_relayAddresses addresses) s = relayAddresses addresses s"
| "step e (AddrQueue_fires released) s = relayNow e released s"
| "step e (Receive msg) s = onMessage e msg s"
| "step e (Timeout_fires k) s =
     (if timeouts s k \<noteq> None then timeout_callback k s else ret s)"
| "step e (Interval_fires k) s =
     (if intervals s k \<noteq> None then interval_callback e k s else ret s)"
| "step e Channel_closes s = onClose s"

fun run :: "(env \<times> event) list \<Rightarrow> agent \<Rightarrow> result" where
  "run [] s = ret s"
| "run ((e, ev) # rest) s = andThen (step e ev s) (run rest)"

inductive reachable :: "agent \<Rightarrow> bool" where
  reachable_init: "reachable (NetworkAgent cfg channel_pa nonce)"
| reachable_step: "reachable s \<Longrightarrow> step e ev s = Inr (s', out) \<Longrightarrow> reachable s'"


section \<open>Predicates and example values used in the statements\<close>

text \<open>
  What the specification says about the relay filter, in its own words: an address is
  relayed unless it is a WebRTC address at or beyond \<open>MAX_DISTANCE\<close>, a Dumb address or a
  seed, and only if the peer does not know it, or knows a WebRTC version with strictly
  greater distance, or the known entry's timestamp is older than \<open>now - RELAY_THROTTLE\<close>.
\<close>

definition relay_spec :: "env \<Rightarrow> agent \<Rightarrow> peer_address \<Rightarrow> bool" where
  "relay_spec e s a =
     (\<not> (protocol a = RTC \<and> distance a \<ge> MAX_DISTANCE e)
      \<and> protocol a \<noteq> DUMB
      \<and> \<not> isSeed a
      \<and> (case hs_get (knownAddresses s) a of
            None \<Rightarrow> True
          | Some known \<Rightarrow>
              (protocol known = RTC \<and> distance known > distance a)
              \<or> timestamp known < now e - RELAY_THROTTLE))"

text \<open>The two checks \<open>_onAddr\<close> makes on each address of a batch, and the close reason
  of the one that fails.\<close>

definition addr_ok :: "peer_address \<Rightarrow> bool" where
  "addr_ok a = (verifySignature a \<and> \<not> (protocol a = WS \<and> \<not> globallyReachable a))"

definition addr_close_reason :: "peer_address \<Rightarrow> close_type" where
  "addr_close_reason a = (if \<not> verifySignature a then INVALID_ADDR else ADDR_NOT_GLOBALLY_REACHABLE)"

text \<open>The version frame \<open>handshake()\<close> sends, and what follows a failed send of it.\<close>

definition version_frame :: "env \<Rightarrow> agent \<Rightarrow> channel_call" where
  "version_frame e s = Version (cfg_peerAddress (networkConfig s)) (headHash e) (challengeNonce s)"

definition failed_version_outcome :: "env \<Rightarrow> agent \<Rightarrow> effect" where
  "failed_version_outcome e s =
     (if VERSION_ATTEMPTS_MAX \<le> versionAttempts s + 1 \<or> closed_in_handshake e
      then Channel (Close SENDING_OF_VERSION_MESSAGE_FAILED)
      else SetTimeout_handshake VERSION_RETRY_DELAY)"

text \<open>The sends whose result the agent reads: \<open>version\<close> in \<open>handshake\<close> and \<open>ping\<close> in
  \<open>_checkConnectivity\<close>.\<close>

fun result_is_read :: "channel_call \<Rightarrow> bool" where
  "result_is_read (Version a h n) = True"
| "result_is_read (Ping n) = True"
| "result_is_read c = False"

text \<open>The \<open>handshake\<close> observer event.\<close>

definition is_handshake :: "effect \<Rightarrow> bool" where
  "is_handshake x = (case x of Fire_handshake p a \<Rightarrow> True | _ \<Rightarrow> False)"

text \<open>The state and the effects after a sequence of events (the start state and no
  effects if an exception escapes a handler).\<close>

definition state_after :: "(env \<times> event) list \<Rightarrow> agent \<Rightarrow> agent" where
  "state_after evs s = (case run evs s of Inr (s', out) \<Rightarrow> s' | Inl e \<Rightarrow> s)"

definition effects_of :: "(env \<times> event) list \<Rightarrow> agent \<Rightarrow> effect list" where
  "effects_of evs s = (case run evs s of Inr (s', out) \<Rightarrow> out | Inl e \<Rightarrow> [])"

subsection \<open>The invariant of the reachable states\<close>

definition known_wf :: "hash_set \<Rightarrow> bool" where
  "known_wf m = (\<forall>k a. m k = Some a \<longrightarrow> hashCode a = k)"

definition inv :: "agent \<Rightarrow> bool" where
  "inv s =
     ((verackReceived s \<longrightarrow> versionReceived s)
      \<and> (verackSent s \<longrightarrow> peerAddressVerified s)
      \<and> (versionReceived s \<longrightarrow> channel_peerAddress s \<noteq> None \<and> peerChallengeNonce s \<noteq> None)
      \<and> (\<not> verackReceived s \<longrightarrow> pingTimes s = Map.empty \<and> intervals s T_connectivity = None)
      \<and> (\<forall>n. timeouts s (T_ping n) \<noteq> None \<longrightarrow> pingTimes s n \<noteq> None)
      \<and> known_wf (knownAddresses s))"

text \<open>A handler run that keeps the invariant and \<open>verackReceived\<close> and fires no
  \<open>handshake\<close> event; and what every handler run guarantees.\<close>

definition quiet :: "agent \<Rightarrow> agent \<Rightarrow> effect list \<Rightarrow> bool" where
  "quiet s s' out =
     (inv s' \<and> verackReceived s' = verackReceived s \<and> (\<forall>x\<in>set out. \<not> is_handshake x))"

definition step_ok :: "agent \<Rightarrow> agent \<Rightarrow> effect list \<Rightarrow> bool" where
  "step_ok s s' out =
     (inv s' \<and> (verackReceived s \<longrightarrow> verackReceived s')
      \<and> length (filter is_handshake out) \<le> 1
      \<and> ((\<exists>x\<in>set out. is_handshake x) \<longrightarrow> \<not> verackReceived s \<and> verackReceived s')
      \<and> (\<forall>p a. Fire_handshake p a \<in> set out \<longrightarrow> verackSent a \<and> verackReceived a))"

text \<open>The two halves of \<open>_onVersion\<close> once the message has passed its checks: the state
  after the assignments, and the code after the \<open>version\<close> event has fired.\<close>

definition accepted :: "env \<Rightarrow> version_message \<Rightarrow> agent \<Rightarrow> agent" where
  "accepted e msg s =
     (let s1 = clearTimeout T_version s;
          peerAddress = msg_peerAddress msg;
          s2 = (if channel_peerAddress s1 \<noteq> None then s1\<lparr>peerAddressVerified := True\<rparr> else s1);
          peerAddress' =
              (if netAddress peerAddress = None
               then (case addresses_get e peerAddress of
                       None \<Rightarrow> peerAddress
                     | Some storedAddress \<Rightarrow>
                         if netAddress storedAddress \<noteq> None
                         then peerAddress\<lparr>netAddress := netAddress storedAddress\<rparr>
                         else peerAddress)
               else peerAddress)
      in s2\<lparr>channel_peerAddress := Some peerAddress',
             peer := Some \<lparr>peer_version = msg_version msg,
                           peer_headHash = msg_headHash msg,
                           timeOffset = timestamp peerAddress' - now e\<rparr>,
             peerChallengeNonce := Some (msg_challengeNonce msg),
             versionReceived := True\<rparr>)"

definition after_version :: "env \<Rightarrow> agent \<Rightarrow> result" where
  "after_version e s4 =
     (if closed_in_onVersion e then ret s4
      else if \<not> versionSent s4 then handshake e s4
      else andThen (if peerAddressVerified s4 then sendVerAck s4 else ret s4) (\<lambda>s5.
           if verackReceived s5 then finishHandshake s5 else ret s5))"

subsection \<open>A concrete agent, peer and environment\<close>

definition local_key :: public_key where
  "local_key = \<lparr>key_bytes = [1], toPeerId = [1]\<rparr>"

definition remote_key :: public_key where
  "remote_key = \<lparr>key_bytes = [2], toPeerId = [2]\<rparr>"

definition local_address :: peer_address where
  "local_address = \<lparr>protocol = WS, peerId = [1], distance = 0, timestamp = 1000,
     netAddress = Some 1, isSeed = False, verifySignature = True, globallyReachable = True\<rparr>"

definition remote_address :: peer_address where
  "remote_address = \<lparr>protocol = WS, peerId = [2], distance = 0, timestamp = 2000,
     netAddress = Some 2, isSeed = False, verifySignature = True, globallyReachable = True\<rparr>"

definition third_address :: peer_address where
  "third_address = \<lparr>protocol = RTC, peerId = [3], distance = 1, timestamp = 3000,
     netAddress = None, isSeed = False, verifySignature = True, globallyReachable = False\<rparr>"

definition forged_address :: peer_address where
  "forged_address = \<lparr>protocol = WS, peerId = [6], distance = 0, timestamp = 3000,
     netAddress = Some 6, isSeed = False, verifySignature = False, globallyReachable = True\<rparr>"

definition demo_config :: network_config where
  "demo_config = \<lparr>cfg_peerAddress = local_address,
     keyPair = \<lparr>privateKey = [9], publicKey = local_key\<rparr>,
     protocolMask = 1, services_accepted = 1\<rparr>"

definition demo_env :: env where
  "demo_env = \<lparr>now = 100000, headHash = [0], send_ok = (\<lambda>c. True),
     closed_in_handshake = False, closed_in_onVersion = False,
     lastMessageReceivedAt = 99000, randomUint32 = 7,
     addresses_get = (\<lambda>a. None), addresses_query = (\<lambda>p s n. []),
     addrLimit_note = (\<lambda>n. n \<le> 2000), isCompatible = (\<lambda>v. v = 1),
     GENESIS_HASH = [3], MAX_DISTANCE = 4\<rparr>"

definition failing_env :: env where
  "failing_env = demo_env\<lparr>send_ok := (\<lambda>c. False)\<rparr>"

definition limited_env :: env where
  "limited_env = demo_env\<lparr>addrLimit_note := (\<lambda>n. False)\<rparr>"

definition silent_env :: env where
  "silent_env = demo_env\<lparr>lastMessageReceivedAt := 0\<rparr>"

definition second_env :: env where
  "second_env = silent_env\<lparr>randomUint32 := 8\<rparr>"

definition boundary_env :: env where
  "boundary_env = demo_env\<lparr>lastMessageReceivedAt := 40000\<rparr>"

definition demo_version :: version_message where
  "demo_version = \<lparr>msg_version = 1, msg_peerAddress = remote_address,
     msg_genesisHash = [3], msg_headHash = [0], msg_challengeNonce = [5]\<rparr>"

definition demo_verack :: verack_message where
  "demo_verack = \<lparr>msg_publicKey = remote_key,
     msg_signature = \<lparr>signer = remote_key, signed_data = [1, 4]\<rparr>\<rparr>"

definition demo_agent :: agent where
  "demo_agent = NetworkAgent demo_config (Some remote_address) [4]"

definition demo_trace :: "(env \<times> event) list" where
  "demo_trace = [(demo_env, Call_handshake),
                 (demo_env, Receive (VersionMessage demo_version)),
                 (demo_env, Receive (VerAckMessage demo_verack))]"

definition version_exchanged :: agent where
  "version_exchanged = state_after (take 2 demo_trace) demo_agent"

definition handshaken :: agent where
  "handshaken = state_after demo_trace demo_agent"

definition pinged :: agent where
  "pinged = state_after (demo_trace @ [(demo_env, Interval_fires T_connectivity)]) demo_agent"

definition armed :: agent where
  "armed = state_after (demo_trace @ [(silent_env, Interval_fires T_connectivity)]) demo_agent"

section \<open>Basic facts\<close>

lemmas demo_defs = local_key_def remote_key_def local_address_def remote_address_def
  demo_config_def demo_env_def demo_version_def demo_verack_def demo_agent_def demo_trace_def

lemmas handler_defs = NetworkAgent_def handshake_def onVersion_def onVerAck_def
  sendVerAck_def finishHandshake_def requestAddresses_def canAcceptMessage_def
  andThen_def emit_def ret_def setTimeout_def clearTimeout_def setInterval_def
  Signature_create_def verify_def concatTypedArrays_def equals_def hashCode_def hs_add_def
  checkConnectivity_def onPing_def onPong_def Let_def

lemma andThen_Inr:
  "andThen r f = Inr (s', out) \<longleftrightarrow>
   (\<exists>s1 o1 o2. r = Inr (s1, o1) \<and> f s1 = Inr (s', o2) \<and> out = o1 @ o2)"
  by (auto simp: andThen_def split: sum.splits prod.splits)

lemma andThen_Inl_iff:
  "andThen r f = Inl err \<longleftrightarrow> r = Inl err \<or> (\<exists>s out. r = Inr (s, out) \<and> f s = Inl err)"
  by (auto simp: andThen_def split: sum.splits prod.splits)

lemma andThen_ret [simp]: "andThen (ret s) f = f s"
  by (auto simp add: andThen_def ret_def split: sum.splits)

lemma is_handshake_simps [simp]:
  "is_handshake (Fire_handshake p a)" "\<not> is_handshake (Channel c)"
  "\<not> is_handshake (Fire_version p a)" "\<not> is_handshake (Fire_addr as a)"
  "\<not> is_handshake (Fire_ping_pong d)" "\<not> is_handshake (AddrQueue_enqueue x)"
  "\<not> is_handshake AddrQueue_stop" "\<not> is_handshake (AddrLimit_note n)"
  "\<not> is_handshake (Addresses_add as)" "\<not> is_handshake (SetTimeout_handshake d)"
  by (simp_all add: is_handshake_def)

lemma known_wf_add: "known_wf m \<Longrightarrow> known_wf (hs_add m a)"
  by (auto simp: known_wf_def hs_add_def)

lemma known_wf_fold: "known_wf m \<Longrightarrow> known_wf (fold (\<lambda>a m. hs_add m a) xs m)"
  by (induction xs arbitrary: m) (auto simp: known_wf_add)

lemma hs_contains_fold:
  "b \<in> set xs \<or> hs_contains m b \<Longrightarrow> hs_contains (fold (\<lambda>a m. hs_add m a) xs m) b"
proof (induction xs arbitrary: m)
  case Nil
  then show ?case by simp
next
  case (Cons x xs)
  have "b \<in> set xs \<or> hs_contains (hs_add m x) b"
    using Cons.prems by (auto simp: hs_contains_def hs_add_def)
  from Cons.IH [OF this] show ?case by simp
qed

lemma inv_init: "inv (NetworkAgent cfg pa nonce)"
  by (simp add: inv_def NetworkAgent_def known_wf_def)

section \<open>The handlers, one by one\<close>

lemma sendVerAck_Inr:
  "sendVerAck s = Inr (s', out) \<Longrightarrow>
     s' = s\<lparr>verackSent := True\<rparr> \<and> peerAddressVerified s \<and> (\<forall>x\<in>set out. \<not> is_handshake x)"
  by (auto simp: sendVerAck_def emit_def Let_def split: if_splits option.splits)

lemma sendVerAck_Inl:
  "sendVerAck s = Inl err \<longleftrightarrow>
     (\<not> peerAddressVerified s \<and> err = AssertionError)
     \<or> (peerAddressVerified s \<and> (channel_peerAddress s = None \<or> peerChallengeNonce s = None)
         \<and> err = TypeError)"
  by (auto simp: sendVerAck_def emit_def Let_def split: option.splits)

lemma finishHandshake_Inr:
  "finishHandshake s = Inr (s', out) \<Longrightarrow>
     s' = setInterval T_announce_addr ANNOUNCE_ADDR_INTERVAL
            (setInterval T_connectivity CONNECTIVITY_CHECK_INTERVAL s)
     \<and> out = [Fire_handshake (peer s') s',
              Channel (GetAddr (protocolMask (networkConfig s)) (services_accepted (networkConfig s)))]"
  by (auto simp: finishHandshake_def requestAddresses_def emit_def Let_def setInterval_def andThen_Inr)

lemma finishHandshake_not_Inl: "finishHandshake s \<noteq> Inl err"
  by (simp add: finishHandshake_def requestAddresses_def emit_def Let_def andThen_def)

lemma sendVerAck_timeouts: "sendVerAck s = Inr (s', out) \<Longrightarrow> timeouts s' = timeouts s"
  by (auto dest: sendVerAck_Inr)

lemma finishHandshake_timeouts: "finishHandshake s = Inr (s', out) \<Longrightarrow> timeouts s' = timeouts s"
  by (auto dest!: finishHandshake_Inr simp: setInterval_def)

text \<open>\<open>handshake\<close>: the shapes of its result.\<close>

lemma handshake_Inr_cases:
  assumes "handshake e s = Inr (s', out)"
  shows "(\<forall>x\<in>set out. \<not> is_handshake x)
     \<and> (s' = s \<or> s' = s\<lparr>versionAttempts := versionAttempts s + 1\<rparr>
        \<or> (\<not> versionReceived s
            \<and> s' = setTimeout T_verack (HANDSHAKE_TIMEOUT * 2)
                     (setTimeout T_version HANDSHAKE_TIMEOUT (s\<lparr>versionSent := True\<rparr>)))
        \<or> (versionReceived s \<and> peerAddressVerified s
            \<and> s' = setTimeout T_verack (HANDSHAKE_TIMEOUT * 2)
                     (s\<lparr>versionSent := True, verackSent := True\<rparr>))
        \<or> (versionReceived s \<and> \<not> peerAddressVerified s
            \<and> s' = setTimeout T_verack (HANDSHAKE_TIMEOUT * 2) (s\<lparr>versionSent := True\<rparr>)))"
proof (cases "versionSent s")
  case True
  with assms show ?thesis by (simp add: handshake_def ret_def)
next
  case ns: False
  let ?v = "Version (cfg_peerAddress (networkConfig s)) (headHash e) (challengeNonce s)"
  show ?thesis
  proof (cases "send_ok e ?v")
    case False
    with ns assms show ?thesis
      by (auto simp: handshake_def Let_def emit_def split: if_splits)
  next
    case True
    let ?s1 = "s\<lparr>versionSent := True\<rparr>"
    let ?mid = "if \<not> versionReceived ?s1 then ret (setTimeout T_version HANDSHAKE_TIMEOUT ?s1)
                else if peerAddressVerified ?s1 then sendVerAck ?s1 else ret ?s1"
    from True ns assms obtain s2 o2 where
      m: "?mid = Inr (s2, o2)" and s': "s' = setTimeout T_verack (HANDSHAKE_TIMEOUT * 2) s2"
      and out: "out = Channel ?v # o2"
      by (auto simp: handshake_def Let_def emit_def ret_def andThen_Inr)
    show ?thesis
    proof (cases "versionReceived s")
      case False
      with m s' out show ?thesis by (auto simp: ret_def)
    next
      case vr: True
      show ?thesis
      proof (cases "peerAddressVerified s")
        case True
        with vr m have "sendVerAck ?s1 = Inr (s2, o2)" by simp
        from sendVerAck_Inr [OF this] vr True s' out show ?thesis by simp
      next
        case False
        with vr m s' out show ?thesis by (auto simp: ret_def)
      qed
    qed
  qed
qed

lemma handshake_Inl:
  "handshake e s = Inl err \<Longrightarrow>
     err = TypeError \<and> versionReceived s \<and> peerAddressVerified s
     \<and> (channel_peerAddress s = None \<or> peerChallengeNonce s = None)"
  by (auto simp: handshake_def emit_def ret_def Let_def andThen_Inl_iff sendVerAck_Inl
      split: if_splits)

lemma quiet_handshake:
  assumes "inv s" and "handshake e s = Inr (s', out)"
  shows "quiet s s' out"
proof -
  note c = handshake_Inr_cases [OF assms(2)]
  then have n: "\<forall>x\<in>set out. \<not> is_handshake x" by simp
  from c have "inv s' \<and> verackReceived s' = verackReceived s"
  proof (elim conjE disjE)
    assume "s' = s"
    with assms(1) show ?thesis by simp
  next
    assume "s' = s\<lparr>versionAttempts := versionAttempts s + 1\<rparr>"
    with assms(1) show ?thesis by (simp add: inv_def)
  next
    assume "s' = setTimeout T_verack (HANDSHAKE_TIMEOUT * 2)
                     (setTimeout T_version HANDSHAKE_TIMEOUT (s\<lparr>versionSent := True\<rparr>))"
    with assms(1) show ?thesis by (simp add: inv_def setTimeout_def)
  next
    assume "peerAddressVerified s"
      "s' = setTimeout T_verack (HANDSHAKE_TIMEOUT * 2) (s\<lparr>versionSent := True, verackSent := True\<rparr>)"
    with assms(1) show ?thesis by (simp add: inv_def setTimeout_def)
  next
    assume "s' = setTimeout T_verack (HANDSHAKE_TIMEOUT * 2) (s\<lparr>versionSent := True\<rparr>)"
    with assms(1) show ?thesis by (simp add: inv_def setTimeout_def)
  qed
  with n show ?thesis by (simp add: quiet_def)
qed

lemma handshake_ping_timers:
  assumes "handshake e s = Inr (s', out)"
  shows "timeouts s' (T_ping n) = timeouts s (T_ping n)"
  using handshake_Inr_cases [OF assms] by (auto simp: setTimeout_def)

text \<open>\<open>_onVersion\<close>: its structure, and its second half.\<close>

lemma onVersion_unfold:
  "onVersion e msg s =
     (if \<not> canAcceptMessage s VERSION \<or> versionReceived s then ret s
      else if \<not> isCompatible e (msg_version msg)
        then emit [Channel (Reject VERSION REJECT_OBSOLETE), Channel (Close INCOMPATIBLE_VERSION)]
               (clearTimeout T_version s)
      else if GENESIS_HASH e \<noteq> msg_genesisHash msg
        then emit [Channel (Close DIFFERENT_GENESIS_BLOCK)] (clearTimeout T_version s)
      else if \<not> verifySignature (msg_peerAddress msg)
        then emit [Channel (Close INVALID_PEER_ADDRESS_IN_VERSION_MESSAGE)] (clearTimeout T_version s)
      else if (case channel_peerAddress s of None \<Rightarrow> False
               | Some expected \<Rightarrow> \<not> equals expected (msg_peerAddress msg))
        then emit [Channel (Close UNEXPECTED_PEER_ADDRESS_IN_VERSION_MESSAGE)]
               (clearTimeout T_version s)
      else andThen (emit [Fire_version (peer (accepted e msg s)) (accepted e msg s)]
                      (accepted e msg s)) (after_version e))"
proof -
  have c: "channel_peerAddress (clearTimeout T_version s) = channel_peerAddress s"
    by (simp add: clearTimeout_def)
  have a: "after_version e = (\<lambda>s4. if closed_in_onVersion e then ret s4
      else if \<not> versionSent s4 then handshake e s4
      else andThen (if peerAddressVerified s4 then sendVerAck s4 else ret s4) (\<lambda>s5.
           if verackReceived s5 then finishHandshake s5 else ret s5))"
    by (rule ext) (simp add: after_version_def)
  show ?thesis
    unfolding onVersion_def accepted_def Let_def a c
    by (simp cong: if_cong)
qed

lemma accepted_fields [simp]:
  "versionReceived (accepted e msg s)"
  "verackReceived (accepted e msg s) = verackReceived s"
  "verackSent (accepted e msg s) = verackSent s"
  "channel_peerAddress (accepted e msg s) \<noteq> None"
  "peerChallengeNonce (accepted e msg s) \<noteq> None"
  "timeouts (accepted e msg s) = (timeouts s)(T_version := None)"
  "intervals (accepted e msg s) = intervals s"
  "pingTimes (accepted e msg s) = pingTimes s"
  "knownAddresses (accepted e msg s) = knownAddresses s"
  by (simp_all add: accepted_def Let_def clearTimeout_def)

lemma accepted_verified:
  "peerAddressVerified (accepted e msg s) \<longleftrightarrow> peerAddressVerified s \<or> channel_peerAddress s \<noteq> None"
  by (simp add: accepted_def Let_def clearTimeout_def)

lemma onVersion_Inr_cases:
  assumes "onVersion e msg s = Inr (s', out)"
  shows "(s' = s \<and> out = [])
     \<or> (\<not> versionReceived s \<and> s' = clearTimeout T_version s \<and> (\<forall>x\<in>set out. \<not> is_handshake x))
     \<or> (\<not> versionReceived s
         \<and> (\<exists>o2. after_version e (accepted e msg s) = Inr (s', o2)
                \<and> out = Fire_version (peer (accepted e msg s)) (accepted e msg s) # o2))"
proof (cases "\<not> canAcceptMessage s VERSION \<or> versionReceived s")
  case True
  with assms show ?thesis by (simp add: onVersion_unfold ret_def)
next
  case False
  then have nv: "\<not> versionReceived s" by simp
  show ?thesis
  proof (cases "\<not> isCompatible e (msg_version msg) \<or> GENESIS_HASH e \<noteq> msg_genesisHash msg
      \<or> \<not> verifySignature (msg_peerAddress msg)
      \<or> (case channel_peerAddress s of None \<Rightarrow> False
          | Some expected \<Rightarrow> \<not> equals expected (msg_peerAddress msg))")
    case True
    with False assms have "s' = clearTimeout T_version s \<and> (\<forall>x\<in>set out. \<not> is_handshake x)"
      unfolding onVersion_unfold by (auto simp: emit_def split: if_splits)
    with nv show ?thesis by simp
  next
    case ok: False
    with False assms have "andThen (emit [Fire_version (peer (accepted e msg s)) (accepted e msg s)]
                      (accepted e msg s)) (after_version e) = Inr (s', out)"
      unfolding onVersion_unfold by simp
    then have "\<exists>o2. after_version e (accepted e msg s) = Inr (s', o2)
                \<and> out = Fire_version (peer (accepted e msg s)) (accepted e msg s) # o2"
      by (auto simp: andThen_Inr emit_def)
    with nv show ?thesis by simp
  qed
qed

lemma after_version_Inr_cases:
  assumes "after_version e s3 = Inr (s', o2)"
  shows "(s' = s3 \<and> o2 = [])
     \<or> (\<not> versionSent s3 \<and> handshake e s3 = Inr (s', o2))
     \<or> (versionSent s3
         \<and> (\<exists>s5 o1 o3. (s5 = s3 \<and> o1 = []
                       \<or> peerAddressVerified s3 \<and> s5 = s3\<lparr>verackSent := True\<rparr>
                         \<and> (\<forall>x\<in>set o1. \<not> is_handshake x))
              \<and> (s' = s5 \<and> o3 = [] \<or> verackReceived s5 \<and> finishHandshake s5 = Inr (s', o3))
              \<and> o2 = o1 @ o3))"
proof (cases "closed_in_onVersion e")
  case True
  with assms show ?thesis by (simp add: after_version_def ret_def)
next
  case nc: False
  show ?thesis
  proof (cases "versionSent s3")
    case False
    with nc assms show ?thesis by (simp add: after_version_def)
  next
    case True
    with nc assms obtain s5 o1 o3 where
      a: "(if peerAddressVerified s3 then sendVerAck s3 else ret s3) = Inr (s5, o1)"
      and b: "(if verackReceived s5 then finishHandshake s5 else ret s5) = Inr (s', o3)"
      and o: "o2 = o1 @ o3"
      by (auto simp: after_version_def andThen_Inr)
    from a have a': "s5 = s3 \<and> o1 = []
        \<or> peerAddressVerified s3 \<and> s5 = s3\<lparr>verackSent := True\<rparr> \<and> (\<forall>x\<in>set o1. \<not> is_handshake x)"
      by (auto simp: ret_def dest!: sendVerAck_Inr split: if_splits)
    from b have b': "s' = s5 \<and> o3 = [] \<or> verackReceived s5 \<and> finishHandshake s5 = Inr (s', o3)"
      by (auto simp: ret_def split: if_splits)
    from a' b' o True show ?thesis by blast
  qed
qed

lemma quiet_after_version:
  assumes i: "inv s3" and nv: "\<not> verackReceived s3" and r: "after_version e s3 = Inr (s', o2)"
  shows "quiet s3 s' o2"
proof -
  from after_version_Inr_cases [OF r] consider
    (same) "s' = s3" "o2 = []"
    | (hs) "handshake e s3 = Inr (s', o2)"
    | (ack) s5 o1 o3 where "o2 = o1 @ o3"
        "s5 = s3 \<and> o1 = []
         \<or> peerAddressVerified s3 \<and> s5 = s3\<lparr>verackSent := True\<rparr> \<and> (\<forall>x\<in>set o1. \<not> is_handshake x)"
        "s' = s5 \<and> o3 = [] \<or> verackReceived s5 \<and> finishHandshake s5 = Inr (s', o3)"
    by blast
  then show ?thesis
  proof cases
    case same
    with i show ?thesis by (simp add: quiet_def)
  next
    case hs
    with i show ?thesis by (rule quiet_handshake)
  next
    case ack
    from ack(2) nv have "\<not> verackReceived s5" by auto
    with ack(3) have "s' = s5" "o3 = []" by auto
    with ack(1,2) i nv show ?thesis by (auto simp: quiet_def inv_def)
  qed
qed

lemma quiet_onVersion:
  assumes i: "inv s" and r: "onVersion e msg s = Inr (s', out)"
  shows "quiet s s' out"
  using onVersion_Inr_cases [OF r]
proof (elim disjE conjE exE)
  assume "s' = s" "out = []"
  with i show ?thesis by (simp add: quiet_def)
next
  assume nv: "\<not> versionReceived s" and "s' = clearTimeout T_version s"
    and "\<forall>x\<in>set out. \<not> is_handshake x"
  with i show ?thesis by (auto simp: quiet_def inv_def clearTimeout_def)
next
  fix o2
  assume nv: "\<not> versionReceived s"
    and a: "after_version e (accepted e msg s) = Inr (s', o2)"
    and o: "out = Fire_version (peer (accepted e msg s)) (accepted e msg s) # o2"
  from i nv have nr: "\<not> verackReceived s" by (auto simp: inv_def)
  from i nv nr have i3: "inv (accepted e msg s)"
    by (auto simp: inv_def accepted_verified)
  from nr have "\<not> verackReceived (accepted e msg s)" by simp
  from quiet_after_version [OF i3 this a] o nr show ?thesis by (simp add: quiet_def)
qed

lemma after_version_Inl:
  assumes "after_version e s3 = Inl err"
  shows "channel_peerAddress s3 = None \<or> peerChallengeNonce s3 = None"
proof (cases "closed_in_onVersion e")
  case True
  with assms show ?thesis by (simp add: after_version_def ret_def)
next
  case nc: False
  show ?thesis
  proof (cases "versionSent s3")
    case False
    with nc assms have "handshake e s3 = Inl err" by (simp add: after_version_def)
    from handshake_Inl [OF this] show ?thesis by simp
  next
    case True
    with nc assms have "andThen (if peerAddressVerified s3 then sendVerAck s3 else ret s3)
        (\<lambda>s5. if verackReceived s5 then finishHandshake s5 else ret s5) = Inl err"
      by (simp add: after_version_def)
    then have "(if peerAddressVerified s3 then sendVerAck s3 else ret s3) = Inl err"
      by (auto simp: andThen_Inl_iff finishHandshake_not_Inl ret_def split: if_splits)
    then show ?thesis by (auto simp: sendVerAck_Inl ret_def split: if_splits)
  qed
qed

lemma onVersion_Inl: "onVersion e msg s \<noteq> Inl err"
proof
  assume "onVersion e msg s = Inl err"
  then have "after_version e (accepted e msg s) = Inl err"
    unfolding onVersion_unfold
    by (auto simp: ret_def emit_def andThen_Inl_iff split: if_splits)
  from after_version_Inl [OF this] show False by simp
qed

lemma after_version_ping_timers:
  assumes "after_version e s3 = Inr (s', o2)"
  shows "timeouts s' (T_ping n) = timeouts s3 (T_ping n)"
  using after_version_Inr_cases [OF assms]
  by (auto simp: handshake_ping_timers dest!: finishHandshake_timeouts)

lemma onVersion_ping_timers:
  assumes "onVersion e msg s = Inr (s', out)"
  shows "timeouts s' (T_ping n) = timeouts s (T_ping n)"
  using onVersion_Inr_cases [OF assms]
  by (auto simp: clearTimeout_def dest!: after_version_ping_timers [where n = n])

text \<open>The other handlers keep the invariant and fire no \<open>handshake\<close> event.\<close>

lemma quiet_relayAddresses: "inv s \<Longrightarrow> relayAddresses as s = Inr (s', out) \<Longrightarrow> quiet s s' out"
  by (auto simp: relayAddresses_def quiet_def ret_def emit_def split: if_splits)

lemma quiet_relayNow: "inv s \<Longrightarrow> relayNow e as s = Inr (s', out) \<Longrightarrow> quiet s s' out"
  by (auto simp: relayNow_def quiet_def ret_def emit_def Let_def inv_def known_wf_fold split: if_splits)

lemma checkAddresses_frame:
  "checkAddresses as s = (s', r) \<Longrightarrow>
     s' = s\<lparr>knownAddresses := knownAddresses s'\<rparr>
     \<and> (known_wf (knownAddresses s) \<longrightarrow> known_wf (knownAddresses s'))"
proof (induction as arbitrary: s)
  case Nil
  then show ?case by auto
next
  case (Cons a as)
  show ?case
  proof (cases "\<not> verifySignature a \<or> (protocol a = WS \<and> \<not> globallyReachable a)")
    case True
    with Cons.prems show ?thesis by (auto split: if_splits)
  next
    case False
    with Cons.prems have "checkAddresses as (s\<lparr>knownAddresses := hs_add (knownAddresses s) a\<rparr>) = (s', r)"
      by auto
    from Cons.IH [OF this] show ?thesis by (auto simp: known_wf_add)
  qed
qed

lemma checkAddresses_frame_ex:
  assumes "checkAddresses as s = (s', r)"
  obtains m where "s' = s\<lparr>knownAddresses := m\<rparr>"
    and "known_wf (knownAddresses s) \<longrightarrow> known_wf m"
  using checkAddresses_frame [OF assms] by blast

lemma quiet_onAddr:
  assumes "inv s" and "onAddr e as s = Inr (s', out)"
  shows "quiet s s' out"
proof (cases "canAcceptMessage s ADDR \<and> \<not> length as > MAX_ADDR_PER_MESSAGE
              \<and> addrLimit_note e (length as)")
  case False
  with assms show ?thesis
    by (auto simp: onAddr_def quiet_def ret_def emit_def split: if_splits)
next
  case True
  obtain s1 r where c: "checkAddresses as s = (s1, r)" by (cases "checkAddresses as s")
  from c obtain m where m: "s1 = s\<lparr>knownAddresses := m\<rparr>"
    and wf: "known_wf (knownAddresses s) \<longrightarrow> known_wf m"
    by (rule checkAddresses_frame_ex)
  from True c assms(2) have "s' = s1" and "\<forall>x\<in>set out. \<not> is_handshake x"
    by (auto simp: onAddr_def emit_def split: option.splits)
  with m wf assms(1) show ?thesis
    by (simp add: quiet_def inv_def)
qed

lemma quiet_onGetAddr: "inv s \<Longrightarrow> onGetAddr e pm sm s = Inr (s', out) \<Longrightarrow> quiet s s' out"
  by (auto simp: onGetAddr_def quiet_def ret_def emit_def Let_def split: if_splits)

lemma quiet_onPing: "inv s \<Longrightarrow> onPing n s = Inr (s', out) \<Longrightarrow> quiet s s' out"
  by (auto simp: onPing_def quiet_def ret_def emit_def split: if_splits)

lemma quiet_onPong: "inv s \<Longrightarrow> onPong e n s = Inr (s', out) \<Longrightarrow> quiet s s' out"
  by (auto simp: onPong_def quiet_def ret_def emit_def Let_def clearTimeout_def inv_def
      split: if_splits option.splits)

lemma quiet_onClose: "inv s \<Longrightarrow> onClose s = Inr (s', out) \<Longrightarrow> quiet s s' out"
  by (auto simp: onClose_def quiet_def emit_def clearAll_def inv_def)

lemma quiet_checkConnectivity:
  "inv s \<Longrightarrow> verackReceived s \<Longrightarrow> checkConnectivity e s = Inr (s', out) \<Longrightarrow> quiet s s' out"
  by (auto simp: checkConnectivity_def quiet_def emit_def Let_def setTimeout_def inv_def
      split: if_splits)

lemma quiet_timeout: "inv s \<Longrightarrow> timeout_callback k s = Inr (s', out) \<Longrightarrow> quiet s s' out"
  by (cases k) (auto simp: quiet_def emit_def ret_def Let_def clearTimeout_def inv_def split: if_splits)

lemma quiet_interval:
  "inv s \<Longrightarrow> intervals s k \<noteq> None \<Longrightarrow> interval_callback e k s = Inr (s', out) \<Longrightarrow> quiet s s' out"
proof (cases k)
  case T_connectivity
  assume a: "inv s" "intervals s k \<noteq> None" "interval_callback e k s = Inr (s', out)"
  with T_connectivity have "verackReceived s" by (auto simp: inv_def)
  with a T_connectivity show ?thesis by (simp add: quiet_checkConnectivity)
qed (auto simp: quiet_def emit_def ret_def)


text \<open>\<open>_onVerAck\<close>, the only handler that fires \<open>handshake\<close>.\<close>

lemma quiet_step_ok: "quiet s s' out \<Longrightarrow> step_ok s s' out"
proof -
  assume q: "quiet s s' out"
  then have n: "\<forall>x\<in>set out. \<not> is_handshake x" by (simp add: quiet_def)
  then have "filter is_handshake out = []" by (simp add: filter_empty_conv)
  moreover from n have "\<forall>p a. Fire_handshake p a \<notin> set out" by force
  ultimately show ?thesis using q n by (simp add: step_ok_def quiet_def)
qed

lemma onVerAck_unfold:
  assumes "canAcceptMessage s VERACK" "\<not> verackReceived s" "channel_peerAddress s = Some remote"
  shows "onVerAck msg s =
      (if toPeerId (msg_publicKey msg) \<noteq> peerId remote
       then emit [Channel (Close INVALID_PUBLIC_KEY_IN_VERACK_MESSAGE)] (clearTimeout T_verack s)
       else if \<not> verify (msg_signature msg) (msg_publicKey msg)
                  (concatTypedArrays (peerId (cfg_peerAddress (networkConfig s))) (challengeNonce s))
       then emit [Channel (Close INVALID_SIGNATURE_IN_VERACK_MESSAGE)] (clearTimeout T_verack s)
       else andThen (if \<not> peerAddressVerified s
                         then sendVerAck (clearTimeout T_verack s\<lparr>peerAddressVerified := True\<rparr>)
                         else ret (clearTimeout T_verack s))
             (\<lambda>s2. case channel_peerAddress s2 of
                  None \<Rightarrow> Inl TypeError
                | Some remote2 \<Rightarrow>
                    let s3 = s2\<lparr>knownAddresses := hs_add (knownAddresses s2) remote2,
                                verackReceived := True\<rparr>
                    in if verackSent s3 then finishHandshake s3 else ret s3))"
proof -
  have c: "channel_peerAddress (clearTimeout T_verack s) = Some remote"
    "networkConfig (clearTimeout T_verack s) = networkConfig s"
    "challengeNonce (clearTimeout T_verack s) = challengeNonce s"
    "peerAddressVerified (clearTimeout T_verack s) = peerAddressVerified s"
    using assms by (simp_all add: clearTimeout_def)
  show ?thesis
    unfolding onVerAck_def Let_def using assms(1,2) c by simp
qed


lemma step_ok_onVerAck:
  assumes i: "inv s" and r: "onVerAck msg s = Inr (s', out)"
  shows "step_ok s s' out"
proof (cases "canAcceptMessage s VERACK \<and> \<not> verackReceived s")
  case False
  with r have "s' = s" "out = []" by (auto simp: onVerAck_def ret_def split: if_splits)
  with i show ?thesis by (simp add: step_ok_def)
next
  case True
  then have vr: "versionReceived s" "\<not> verackReceived s"
    by (auto simp: canAcceptMessage_def split: if_splits)
  let ?s1 = "clearTimeout T_verack s"
  have i1: "inv ?s1" "\<not> verackReceived ?s1" "versionReceived ?s1"
    using i vr by (auto simp: clearTimeout_def inv_def)
  from i vr obtain remote where rem0: "channel_peerAddress s = Some remote" by (auto simp: inv_def)
  then have rem: "channel_peerAddress ?s1 = Some remote" by (simp add: clearTimeout_def)
  let ?first = "if \<not> peerAddressVerified s
                then sendVerAck (?s1\<lparr>peerAddressVerified := True\<rparr>) else ret ?s1"
  let ?cont = "\<lambda>s2. case channel_peerAddress s2 of
                  None \<Rightarrow> Inl TypeError
                | Some remote2 \<Rightarrow>
                    let s3 = s2\<lparr>knownAddresses := hs_add (knownAddresses s2) remote2,
                                verackReceived := True\<rparr>
                    in if verackSent s3 then finishHandshake s3 else ret s3"
  note unf = onVerAck_unfold [of s remote msg]
  have "(s' = ?s1 \<and> (\<forall>x\<in>set out. \<not> is_handshake x)) \<or> andThen ?first ?cont = Inr (s', out)"
  proof (cases "toPeerId (msg_publicKey msg) \<noteq> peerId remote
       \<or> \<not> verify (msg_signature msg) (msg_publicKey msg)
                  (concatTypedArrays (peerId (cfg_peerAddress (networkConfig s))) (challengeNonce s))")
    case True
    with r unf \<open>canAcceptMessage s VERACK \<and> \<not> verackReceived s\<close> rem0
    have "s' = ?s1 \<and> (\<forall>x\<in>set out. \<not> is_handshake x)"
      by (auto simp: emit_def split: if_splits)
    then show ?thesis ..
  next
    case False
    with r unf \<open>canAcceptMessage s VERACK \<and> \<not> verackReceived s\<close> rem0
    have "andThen ?first ?cont = Inr (s', out)" by simp
    then show ?thesis ..
  qed
  then show ?thesis
  proof
    assume "s' = ?s1 \<and> (\<forall>x\<in>set out. \<not> is_handshake x)"
    with i1 vr have "quiet s s' out" by (simp add: quiet_def)
    then show ?thesis by (rule quiet_step_ok)
  next
    assume "andThen ?first ?cont = Inr (s', out)"
    then obtain s2 o1 o2 where
      a: "?first = Inr (s2, o1)"
      and b: "?cont s2 = Inr (s', o2)" and o: "out = o1 @ o2"
      unfolding andThen_Inr by blast
    from a have s2: "(s2 = ?s1 \<or> s2 = ?s1\<lparr>peerAddressVerified := True, verackSent := True\<rparr>)
         \<and> (\<forall>x\<in>set o1. \<not> is_handshake x)"
      by (auto simp: ret_def dest!: sendVerAck_Inr split: if_splits)
    with rem have rem2: "channel_peerAddress s2 = Some remote" by auto
    define s3 where "s3 = s2\<lparr>knownAddresses := hs_add (knownAddresses s2) remote,
                                verackReceived := True\<rparr>"
    have i3: "inv s3" "verackReceived s3"
      using s2 i1 by (auto simp: s3_def inv_def known_wf_add)
    have c: "(if verackSent s3 then finishHandshake s3 else ret s3) = Inr (s', o2)"
      using b rem2 unfolding s3_def by (simp add: Let_def split del: if_split)
    from s2 have n1: "\<forall>x\<in>set o1. \<not> is_handshake x" by simp
    then have f1: "filter is_handshake o1 = []" by (simp add: filter_empty_conv)
    from n1 have g1: "\<forall>p a. Fire_handshake p a \<notin> set o1" by force
    show ?thesis
    proof (cases "verackSent s3")
      case False
      with c have "s' = s3" "o2 = []" by (auto simp: ret_def)
      with i3 vr o n1 f1 g1 show ?thesis by (simp add: step_ok_def)
    next
      case True
      with c have fh: "finishHandshake s3 = Inr (s', o2)" by simp
      from finishHandshake_Inr [OF fh] have
        s': "s' = setInterval T_announce_addr ANNOUNCE_ADDR_INTERVAL
               (setInterval T_connectivity CONNECTIVITY_CHECK_INTERVAL s3)"
        and o2: "o2 = [Fire_handshake (peer s') s',
              Channel (GetAddr (protocolMask (networkConfig s3)) (services_accepted (networkConfig s3)))]"
        by auto
      from s' i3 True have p: "inv s'" "verackReceived s'" "verackSent s'"
        by (auto simp: setInterval_def inv_def)
      have "\<forall>p a. Fire_handshake p a \<in> set out \<longrightarrow> a = s'"
        using o o2 g1 by simp
      with p have "\<forall>p a. Fire_handshake p a \<in> set out \<longrightarrow> verackSent a \<and> verackReceived a"
        by blast
      moreover have "length (filter is_handshake out) \<le> 1"
        using o o2 f1 by simp
      ultimately show ?thesis using p vr by (simp add: step_ok_def)
    qed
  qed
qed



lemma onVerAck_Inl:
  "onVerAck msg s = Inl err \<Longrightarrow> err = TypeError \<and> versionReceived s
     \<and> (channel_peerAddress s = None \<or> peerChallengeNonce s = None)"
proof -
  assume a: "onVerAck msg s = Inl err"
  then have acc: "canAcceptMessage s VERACK" "\<not> verackReceived s"
    by (auto simp: onVerAck_def ret_def split: if_splits)
  then have vr: "versionReceived s" by (auto simp: canAcceptMessage_def split: if_splits)
  show ?thesis
  proof (cases "channel_peerAddress s")
    case None
    with a acc vr show ?thesis
      by (simp add: onVerAck_def Let_def clearTimeout_def)
  next
    case (Some remote)
    note unf = onVerAck_unfold [OF acc Some, of msg]
    let ?s1 = "clearTimeout T_verack s"
    let ?first = "if \<not> peerAddressVerified s then sendVerAck (?s1\<lparr>peerAddressVerified := True\<rparr>)
        else ret ?s1"
    let ?cont = "\<lambda>s2. case channel_peerAddress s2 of
                  None \<Rightarrow> Inl TypeError
                | Some remote2 \<Rightarrow>
                    let s3 = s2\<lparr>knownAddresses := hs_add (knownAddresses s2) remote2,
                                verackReceived := True\<rparr>
                    in if verackSent s3 then finishHandshake s3 else ret s3"
    from a unf have "andThen ?first ?cont = Inl err"
      by (auto simp: emit_def split: if_splits)
    then consider "?first = Inl err"
      | s2 out2 where "?first = Inr (s2, out2)" "?cont s2 = Inl err"
      unfolding andThen_Inl_iff by blast
    then show ?thesis
    proof cases
      case 1
      with vr show ?thesis
        by (auto simp: ret_def sendVerAck_Inl clearTimeout_def split: if_splits)
    next
      case 2
      from 2(1) Some have "channel_peerAddress s2 = Some remote"
        by (auto simp: ret_def clearTimeout_def dest!: sendVerAck_Inr split: if_splits)
      with 2(2) show ?thesis
        by (auto simp: Let_def ret_def finishHandshake_not_Inl split: if_splits)
    qed
  qed
qed


lemma onVerAck_ping_timers:
  assumes r: "onVerAck msg s = Inr (s', out)"
  shows "timeouts s' (T_ping n) = timeouts s (T_ping n)"
proof (cases "canAcceptMessage s VERACK \<and> \<not> verackReceived s")
  case False
  with r show ?thesis by (auto simp: onVerAck_def ret_def split: if_splits)
next
  case True
  show ?thesis
  proof (cases "channel_peerAddress s")
    case None
    with r True show ?thesis by (simp add: onVerAck_def Let_def clearTimeout_def)
  next
    case (Some remote)
    from True have acc: "canAcceptMessage s VERACK" "\<not> verackReceived s" by simp_all
    note unf = onVerAck_unfold [OF acc Some, of msg]
    let ?s1 = "clearTimeout T_verack s"
    let ?first = "if \<not> peerAddressVerified s then sendVerAck (?s1\<lparr>peerAddressVerified := True\<rparr>)
        else ret ?s1"
    let ?cont = "\<lambda>s2. case channel_peerAddress s2 of
                  None \<Rightarrow> Inl TypeError
                | Some remote2 \<Rightarrow>
                    let s3 = s2\<lparr>knownAddresses := hs_add (knownAddresses s2) remote2,
                                verackReceived := True\<rparr>
                    in if verackSent s3 then finishHandshake s3 else ret s3"
    have t1: "timeouts ?s1 (T_ping n) = timeouts s (T_ping n)" by (simp add: clearTimeout_def)
    from r unf have "s' = ?s1 \<or> andThen ?first ?cont = Inr (s', out)"
      by (auto simp: emit_def split: if_splits)
    then show ?thesis
    proof
      assume "s' = ?s1"
      with t1 show ?thesis by simp
    next
      assume "andThen ?first ?cont = Inr (s', out)"
      then obtain s2 o1 o2 where a: "?first = Inr (s2, o1)" and b: "?cont s2 = Inr (s', o2)"
        unfolding andThen_Inr by blast
      from a have "timeouts s2 = timeouts ?s1"
        by (auto simp: ret_def dest!: sendVerAck_timeouts split: if_splits)
      moreover from b have "timeouts s' = timeouts s2"
        by (auto simp: ret_def Let_def dest!: finishHandshake_timeouts
            split: if_splits option.splits)
      ultimately show ?thesis using t1 by simp
    qed
  qed
qed

lemma checkAddresses_timeouts: "checkAddresses as s = (s', r) \<Longrightarrow> timeouts s' = timeouts s"
  by (induction as arbitrary: s) (auto split: if_splits)


section \<open>Steps and runs\<close>

lemma step_ok_step: "inv s \<Longrightarrow> step e ev s = Inr (s', out) \<Longrightarrow> step_ok s s' out"
proof (cases ev)
  case (Receive msg)
  assume "inv s" "step e ev s = Inr (s', out)"
  with Receive show ?thesis
    by (cases msg) (auto intro: quiet_step_ok quiet_onVersion step_ok_onVerAck quiet_onAddr
        quiet_onGetAddr quiet_onPing quiet_onPong)
next
  case (Timeout_fires k)
  assume a: "inv s" "step e ev s = Inr (s', out)"
  show ?thesis
  proof (cases "timeouts s k = None")
    case True
    with a Timeout_fires show ?thesis by (auto simp: ret_def step_ok_def)
  next
    case False
    with a Timeout_fires have "quiet s s' out" by (auto intro: quiet_timeout)
    then show ?thesis by (rule quiet_step_ok)
  qed
next
  case (Interval_fires k)
  assume a: "inv s" "step e ev s = Inr (s', out)"
  show ?thesis
  proof (cases "intervals s k = None")
    case True
    with a Interval_fires show ?thesis by (auto simp: ret_def step_ok_def)
  next
    case False
    with a Interval_fires have "quiet s s' out" by (auto intro: quiet_interval)
    then show ?thesis by (rule quiet_step_ok)
  qed
qed (auto intro: quiet_step_ok quiet_handshake quiet_relayAddresses quiet_relayNow quiet_onClose)

lemma inv_reachable: "reachable s \<Longrightarrow> inv s"
  by (induction rule: reachable.induct) (auto simp: inv_init dest: step_ok_step simp: step_ok_def)

lemma run_facts:
  "inv s \<Longrightarrow> run evs s = Inr (s', out) \<Longrightarrow>
     inv s' \<and> (verackReceived s \<longrightarrow> verackReceived s' \<and> (\<forall>x\<in>set out. \<not> is_handshake x))
     \<and> length (filter is_handshake out) \<le> 1
     \<and> (\<forall>p a. Fire_handshake p a \<in> set out \<longrightarrow> verackSent a \<and> verackReceived a)"
proof (induction evs arbitrary: s out)
  case Nil
  then show ?case by (simp add: ret_def)
next
  case (Cons x evs)
  obtain e ev where x: "x = (e, ev)" by (cases x)
  with Cons.prems obtain s1 o1 o2 where
    a: "step e ev s = Inr (s1, o1)" and b: "run evs s1 = Inr (s', o2)" and o: "out = o1 @ o2"
    by (auto simp: andThen_Inr)
  from step_ok_step [OF Cons.prems(1) a] have ok: "step_ok s s1 o1" .
  then have i1: "inv s1" by (simp add: step_ok_def)
  note ih = Cons.IH [OF i1 b]
  have cnt: "length (filter is_handshake out) \<le> 1"
  proof (cases "\<exists>x\<in>set o1. is_handshake x")
    case True
    with ok have "verackReceived s1" by (simp add: step_ok_def)
    with ih have "filter is_handshake o2 = []" by (simp add: filter_empty_conv)
    with ok o show ?thesis by (simp add: step_ok_def)
  next
    case False
    then have "filter is_handshake o1 = []" by (simp add: filter_empty_conv)
    with ih o show ?thesis by simp
  qed
  from ok ih o have "verackReceived s \<longrightarrow> verackReceived s' \<and> (\<forall>x\<in>set out. \<not> is_handshake x)"
    by (auto simp: step_ok_def)
  moreover from ok ih o have "\<forall>p a. Fire_handshake p a \<in> set out \<longrightarrow> verackSent a \<and> verackReceived a"
    by (auto simp: step_ok_def)
  ultimately show ?case using ih cnt by simp
qed


lemma step_Inl:
  "step e ev s = Inl err \<Longrightarrow> err = TypeError \<and> versionReceived s
     \<and> (channel_peerAddress s = None \<or> peerChallengeNonce s = None)"
proof (cases ev)
  case Call_handshake
  assume "step e ev s = Inl err"
  with Call_handshake show ?thesis by (auto dest: handshake_Inl)
next
  case (Call_relayAddresses as)
  assume "step e ev s = Inl err"
  with Call_relayAddresses show ?thesis
    by (auto simp: relayAddresses_def ret_def emit_def split: if_splits)
next
  case (AddrQueue_fires as)
  assume "step e ev s = Inl err"
  with AddrQueue_fires show ?thesis
    by (auto simp: relayNow_def ret_def emit_def Let_def split: if_splits)
next
  case (Receive msg)
  assume "step e ev s = Inl err"
  with Receive show ?thesis
    by (cases msg)
       (auto simp: onVersion_Inl onAddr_def onGetAddr_def onPing_def onPong_def ret_def emit_def
          Let_def dest: onVerAck_Inl split: if_splits prod.splits option.splits)
next
  case (Timeout_fires k)
  assume "step e ev s = Inl err"
  with Timeout_fires show ?thesis
    by (cases k) (auto simp: ret_def emit_def Let_def split: if_splits)
next
  case (Interval_fires k)
  assume "step e ev s = Inl err"
  with Interval_fires show ?thesis
    by (cases k) (auto simp: checkConnectivity_def ret_def emit_def Let_def split: if_splits)
next
  case Channel_closes
  assume "step e ev s = Inl err"
  with Channel_closes show ?thesis by (simp add: onClose_def emit_def)
qed

lemma step_total: "inv s \<Longrightarrow> \<exists>s' out. step e ev s = Inr (s', out)"
proof -
  assume i: "inv s"
  show ?thesis
  proof (cases "step e ev s")
    case (Inl err)
    from step_Inl [OF Inl] i show ?thesis by (auto simp: inv_def)
  next
    case (Inr r)
    then show ?thesis by (cases r) simp
  qed
qed

lemma run_total: "inv s \<Longrightarrow> \<exists>s' out. run evs s = Inr (s', out)"
proof (induction evs arbitrary: s)
  case Nil
  then show ?case by (simp add: ret_def)
next
  case (Cons x evs)
  obtain e ev where x: "x = (e, ev)" by (cases x)
  from step_total [OF Cons.prems] obtain s1 o1 where a: "step e ev s = Inr (s1, o1)" by blast
  from step_ok_step [OF Cons.prems a] have "inv s1" by (simp add: step_ok_def)
  from Cons.IH [OF this] obtain s' o2 where "run evs s1 = Inr (s', o2)" by blast
  with a x show ?case by (simp add: andThen_def)
qed


lemma run_reachable: "reachable s \<Longrightarrow> run evs s = Inr (s', out) \<Longrightarrow> reachable s'"
proof (induction evs arbitrary: s out)
  case Nil
  then show ?case by (simp add: ret_def)
next
  case (Cons x evs)
  obtain e ev where x: "x = (e, ev)" by (cases x)
  with Cons.prems obtain s1 o1 o2 where
    a: "step e ev s = Inr (s1, o1)" and b: "run evs s1 = Inr (s', o2)"
    by (auto simp: andThen_Inr)
  from Cons.prems(1) a have "reachable s1" by (rule reachable_step)
  from Cons.IH [OF this b] show ?case .
qed


lemma state_after_reachable: "reachable s \<Longrightarrow> reachable (state_after evs s)"
proof (cases "run evs s")
  case (Inl e)
  assume "reachable s"
  with Inl show ?thesis by (simp add: state_after_def)
next
  case (Inr r)
  assume r: "reachable s"
  obtain s' out where "r = (s', out)" by (cases r)
  with Inr r show ?thesis by (auto simp: state_after_def dest: run_reachable)
qed

lemma reachable_demo_agent: "reachable demo_agent"
  unfolding demo_agent_def by (rule reachable_init)


lemma step_ping_timer_stays:
  assumes "step e ev s = Inr (s', out)" and "timeouts s (T_ping n) \<noteq> None"
    and "ev \<noteq> Receive (PongMessage n)" and "ev \<noteq> Timeout_fires (T_ping n)"
    and "ev \<noteq> Channel_closes"
  shows "timeouts s' (T_ping n) \<noteq> None"
proof (cases ev)
  case Call_handshake
  with assms show ?thesis by (simp add: handshake_ping_timers)
next
  case (Call_relayAddresses as)
  with assms show ?thesis by (auto simp: relayAddresses_def ret_def emit_def split: if_splits)
next
  case (AddrQueue_fires as)
  with assms show ?thesis by (auto simp: relayNow_def ret_def emit_def Let_def split: if_splits)
next
  case (Receive msg)
  show ?thesis
  proof (cases msg)
    case (VersionMessage m)
    with Receive assms show ?thesis by (simp add: onVersion_ping_timers)
  next
    case (VerAckMessage m)
    with Receive assms show ?thesis by (simp add: onVerAck_ping_timers)
  next
    case (AddrMessage as)
    with Receive assms show ?thesis
      by (auto simp: onAddr_def ret_def emit_def dest!: checkAddresses_timeouts
          split: if_splits prod.splits option.splits)
  next
    case (GetAddrMessage pm sm)
    with Receive assms show ?thesis
      by (auto simp: onGetAddr_def ret_def emit_def Let_def split: if_splits)
  next
    case (PingMessage m)
    with Receive assms show ?thesis by (auto simp: onPing_def ret_def emit_def split: if_splits)
  next
    case (PongMessage m)
    with Receive assms have "m \<noteq> n" by auto
    with PongMessage Receive assms show ?thesis
      by (auto simp: onPong_def ret_def emit_def Let_def clearTimeout_def
          split: if_splits option.splits)
  qed
next
  case (Timeout_fires k)
  with assms have "k \<noteq> T_ping n" by auto
  with Timeout_fires assms show ?thesis
    by (cases k) (auto simp: ret_def emit_def Let_def clearTimeout_def split: if_splits)
next
  case (Interval_fires k)
  with assms show ?thesis
    by (cases k) (auto simp: checkConnectivity_def ret_def emit_def Let_def setTimeout_def
        split: if_splits)
next
  case Channel_closes
  with assms show ?thesis by simp
qed


section \<open>The example run\<close>

lemma handshaken_eq:
  "run demo_trace demo_agent = Inr (handshaken, effects_of demo_trace demo_agent)"
  by (simp add: handshaken_def state_after_def effects_of_def demo_defs handler_defs)

lemma handshaken_flags:
  "versionSent handshaken" "versionReceived handshaken" "verackSent handshaken"
  "verackReceived handshaken" "peerAddressVerified handshaken"
  "intervals handshaken T_connectivity = Some CONNECTIVITY_CHECK_INTERVAL"
  by (simp_all add: handshaken_def state_after_def demo_defs handler_defs)

lemma reachable_handshaken: "reachable handshaken"
proof -
  have "reachable demo_agent" unfolding demo_agent_def by (rule reachable_init)
  from run_reachable [OF this handshaken_eq] show ?thesis .
qed

lemma version_exchanged_facts:
  "reachable version_exchanged" "versionReceived version_exchanged"
  "\<not> verackReceived version_exchanged"
proof -
  show "reachable version_exchanged"
    unfolding version_exchanged_def using reachable_demo_agent by (rule state_after_reachable)
  show "versionReceived version_exchanged" "\<not> verackReceived version_exchanged"
    by (simp_all add: version_exchanged_def state_after_def demo_defs handler_defs)
qed

section \<open>Message admission\<close>

text \<open>
  C1. In every reachable state, an inbound frame other than VERSION that arrives before a
  VERSION was received, and an inbound frame other than VERACK and VERSION that arrives
  after VERSION and before VERACK, leaves the agent's state as it is and causes no effect
  at all (so no outbound frame). This includes the pong handler, which does not consult
  the admitter: before the handshake ends no ping is outstanding and no ping timer is set.
\<close>

theorem inadmissible_message_ignored:
  assumes "reachable s"
    and "(\<not> versionReceived s \<and> type_of msg \<noteq> VERSION)
         \<or> (versionReceived s \<and> \<not> verackReceived s \<and> type_of msg \<noteq> VERACK
             \<and> type_of msg \<noteq> VERSION)"
  shows "step e (Receive msg) s = Inr (s, [])"
proof -
  from assms(1) have i: "inv s" by (rule inv_reachable)
  with assms(2) have nv: "\<not> verackReceived s" by (auto simp: inv_def)
  from assms(2) have na: "\<not> canAcceptMessage s (type_of msg)"
    by (auto simp: canAcceptMessage_def)
  show ?thesis
  proof (cases msg)
    case (PongMessage n)
    from i nv have "pingTimes s n = None" "timeouts s (T_ping n) = None"
      by (auto simp: inv_def)
    then have "(timeouts s)(T_ping n := None) = timeouts s" "pingTimes s n = None"
      by (simp_all add: fun_upd_idem)
    then have "clearTimeout (T_ping n) s = s" "pingTimes (clearTimeout (T_ping n) s) n = None"
      by (simp_all add: clearTimeout_def)
    with PongMessage show ?thesis by (simp add: onPong_def Let_def ret_def)
  next
    case (VersionMessage m)
    with na show ?thesis by (simp add: onVersion_def ret_def)
  next
    case (VerAckMessage m)
    with na show ?thesis by (simp add: onVerAck_def ret_def)
  next
    case (AddrMessage as)
    with na show ?thesis by (simp add: onAddr_def ret_def)
  next
    case (GetAddrMessage pm sm)
    with na show ?thesis by (simp add: onGetAddr_def ret_def)
  next
    case (PingMessage n)
    with na show ?thesis by (simp add: onPing_def ret_def)
  qed
qed

theorem inadmissible_message_ignored_witness:
  "reachable demo_agent \<and> \<not> versionReceived demo_agent \<and> type_of (PongMessage 7) \<noteq> VERSION
   \<and> step demo_env (Receive (PongMessage 7)) demo_agent = Inr (demo_agent, [])
   \<and> reachable version_exchanged \<and> versionReceived version_exchanged
   \<and> \<not> verackReceived version_exchanged
   \<and> type_of (PingMessage 3) \<noteq> VERACK \<and> type_of (PingMessage 3) \<noteq> VERSION
   \<and> step demo_env (Receive (PingMessage 3)) version_exchanged = Inr (version_exchanged, [])"
proof -
  have v: "\<not> versionReceived demo_agent" by (simp add: demo_agent_def NetworkAgent_def)
  note r = reachable_demo_agent
  note x = version_exchanged_facts
  from inadmissible_message_ignored [OF r, of "PongMessage 7" demo_env]
    inadmissible_message_ignored [OF x(1), of "PingMessage 3" demo_env] r v x
  show ?thesis by simp
qed

section \<open>The handshake event\<close>

text \<open>
  C2. Whatever events an agent receives after its construction, in whatever order and
  with whatever answers from its environment, every handler returns, the \<open>handshake\<close>
  observer event fires at most once, and the agent passed to the observers has both
  \<open>verackSent\<close> and \<open>verackReceived\<close> set.
\<close>

theorem handshake_fires_at_most_once:
  "\<exists>s out. run evs (NetworkAgent cfg channel_pa nonce) = Inr (s, out)
     \<and> length (filter is_handshake out) \<le> 1
     \<and> (\<forall>p a. Fire_handshake p a \<in> set out \<longrightarrow> verackSent a \<and> verackReceived a)"
proof -
  have i: "inv (NetworkAgent cfg channel_pa nonce)" by (rule inv_init)
  from run_total [OF i] obtain s out where
    r: "run evs (NetworkAgent cfg channel_pa nonce) = Inr (s, out)" by blast
  from run_facts [OF i r] r show ?thesis by blast
qed

theorem handshake_fires_at_most_once_witness:
  "length (filter is_handshake (effects_of demo_trace demo_agent)) \<le> 1
   \<and> Fire_handshake (peer handshaken) handshaken \<in> set (effects_of demo_trace demo_agent)
   \<and> verackSent handshaken \<and> verackReceived handshaken"
proof -
  from handshake_fires_at_most_once [of demo_trace demo_config "Some remote_address" "[4]"]
  obtain s out where r: "run demo_trace demo_agent = Inr (s, out)"
    and c: "length (filter is_handshake out) \<le> 1"
    and f: "\<forall>p a. Fire_handshake p a \<in> set out \<longrightarrow> verackSent a \<and> verackReceived a"
    unfolding demo_agent_def by blast
  from r handshaken_eq have e: "s = handshaken" "out = effects_of demo_trace demo_agent" by simp_all
  have m: "Fire_handshake (peer handshaken) handshaken \<in> set (effects_of demo_trace demo_agent)"
    by (simp add: handshaken_def state_after_def effects_of_def demo_defs handler_defs)
  with c f e show ?thesis by blast
qed

section \<open>Ping timers\<close>

text \<open>
  C3, as the claim states it, fails: after a connectivity check on a channel that has
  received a message within the last \<open>CONNECTIVITY_CHECK_INTERVAL\<close>, the nonce is in
  \<open>pingTimes\<close> and no \<open>ping_<nonce>\<close> timer is pending.
\<close>

theorem ping_without_timer:
  "reachable pinged \<and> pingTimes pinged 7 = Some 100000 \<and> timeouts pinged (T_ping 7) = None"
proof -
  have "reachable pinged"
    unfolding pinged_def using reachable_demo_agent by (rule state_after_reachable)
  moreover have "pingTimes pinged 7 = Some 100000" "timeouts pinged (T_ping 7) = None"
    by (simp_all add: pinged_def state_after_def demo_defs handler_defs
        CONNECTIVITY_CHECK_INTERVAL_def)
  ultimately show ?thesis by simp
qed

text \<open>
  C3, amended. A connectivity check whose ping is sent records the nonce in \<open>pingTimes\<close>
  with the current time, whatever the state of the channel, and arms the timer
  \<open>ping_<nonce>\<close> (with \<open>PING_TIMEOUT\<close>) exactly when the channel's \<open>lastMessageReceivedAt\<close>
  is strictly before \<open>now - CONNECTIVITY_CHECK_INTERVAL\<close>; otherwise it leaves the timers
  as they are. A check whose ping is not sent records nothing and arms nothing. In
  every reachable state every pending \<open>ping_<nonce>\<close> timer has its nonce in \<open>pingTimes\<close>,
  and the timer stays pending through every event other than a pong for that nonce,
  the expiry of that timer, and the close of the channel.
\<close>

theorem ping_timer_tracked:
  assumes "reachable s" and "step e ev s = Inr (s', out)"
  shows "(ev = Interval_fires T_connectivity \<and> intervals s T_connectivity \<noteq> None
          \<and> send_ok e (Ping (randomUint32 e))
          \<longrightarrow> pingTimes s' = (pingTimes s)(randomUint32 e \<mapsto> now e)
              \<and> timeouts s' =
                  (if lastMessageReceivedAt e < now e - CONNECTIVITY_CHECK_INTERVAL
                   then (timeouts s)(T_ping (randomUint32 e) \<mapsto> PING_TIMEOUT_MS)
                   else timeouts s))
     \<and> (ev = Interval_fires T_connectivity \<and> intervals s T_connectivity \<noteq> None
          \<and> \<not> send_ok e (Ping (randomUint32 e))
          \<longrightarrow> pingTimes s' = pingTimes s \<and> timeouts s' = timeouts s)
     \<and> (\<forall>n. timeouts s (T_ping n) \<noteq> None \<longrightarrow>
            pingTimes s n \<noteq> None
            \<and> (ev \<noteq> Receive (PongMessage n) \<and> ev \<noteq> Timeout_fires (T_ping n)
                \<and> ev \<noteq> Channel_closes \<longrightarrow> timeouts s' (T_ping n) \<noteq> None))"
proof (intro conjI impI allI)
  assume h: "ev = Interval_fires T_connectivity \<and> intervals s T_connectivity \<noteq> None
          \<and> send_ok e (Ping (randomUint32 e))"
  let ?s1 = "s\<lparr>pingTimes := (pingTimes s)(randomUint32 e \<mapsto> now e)\<rparr>"
  from h assms(2) have "s' = (if lastMessageReceivedAt e < now e - CONNECTIVITY_CHECK_INTERVAL
      then setTimeout (T_ping (randomUint32 e)) PING_TIMEOUT_MS ?s1 else ?s1)"
    by (auto simp: checkConnectivity_def emit_def Let_def split: if_splits)
  then show "pingTimes s' = (pingTimes s)(randomUint32 e \<mapsto> now e)"
    and "timeouts s' =
          (if lastMessageReceivedAt e < now e - CONNECTIVITY_CHECK_INTERVAL
           then (timeouts s)(T_ping (randomUint32 e) \<mapsto> PING_TIMEOUT_MS)
           else timeouts s)"
    by (simp_all add: setTimeout_def)
next
  assume h: "ev = Interval_fires T_connectivity \<and> intervals s T_connectivity \<noteq> None
          \<and> \<not> send_ok e (Ping (randomUint32 e))"
  with assms(2) have "s' = s"
    by (auto simp: checkConnectivity_def emit_def Let_def)
  then show "pingTimes s' = pingTimes s" and "timeouts s' = timeouts s" by simp_all
next
  fix n assume t: "timeouts s (T_ping n) \<noteq> None"
  from assms(1) have "inv s" by (rule inv_reachable)
  with t show "pingTimes s n \<noteq> None" by (simp add: inv_def)
  assume "ev \<noteq> Receive (PongMessage n) \<and> ev \<noteq> Timeout_fires (T_ping n) \<and> ev \<noteq> Channel_closes"
  with assms(2) t show "timeouts s' (T_ping n) \<noteq> None"
    by (simp add: step_ping_timer_stays)
qed

theorem ping_timer_tracked_witness:
  "reachable armed \<and> intervals armed T_connectivity \<noteq> None
   \<and> send_ok second_env (Ping (randomUint32 second_env))
   \<and> lastMessageReceivedAt second_env < now second_env - CONNECTIVITY_CHECK_INTERVAL
   \<and> timeouts armed (T_ping 7) \<noteq> None \<and> pingTimes armed 7 \<noteq> None
   \<and> Interval_fires T_connectivity \<noteq> Receive (PongMessage 7)
   \<and> (\<exists>s' out. step second_env (Interval_fires T_connectivity) armed = Inr (s', out)
         \<and> pingTimes s' 8 = Some (now second_env)
         \<and> timeouts s' (T_ping 8) = Some PING_TIMEOUT_MS
         \<and> timeouts s' (T_ping 7) \<noteq> None)
   \<and> reachable handshaken \<and> intervals handshaken T_connectivity \<noteq> None
   \<and> send_ok boundary_env (Ping (randomUint32 boundary_env))
   \<and> lastMessageReceivedAt boundary_env = now boundary_env - CONNECTIVITY_CHECK_INTERVAL
   \<and> timeouts handshaken (T_ping 7) = None
   \<and> (\<exists>s' out. step boundary_env (Interval_fires T_connectivity) handshaken = Inr (s', out)
         \<and> pingTimes s' 7 = Some (now boundary_env)
         \<and> timeouts s' (T_ping 7) = None)
   \<and> \<not> send_ok failing_env (Ping (randomUint32 failing_env))
   \<and> (\<exists>s' out. step failing_env (Interval_fires T_connectivity) handshaken = Inr (s', out)
         \<and> pingTimes s' = pingTimes handshaken \<and> timeouts s' = timeouts handshaken)"
proof -
  have r: "reachable armed"
    unfolding armed_def using reachable_demo_agent by (rule state_after_reachable)
  have a: "intervals armed T_connectivity \<noteq> None" "timeouts armed (T_ping 7) \<noteq> None"
    by (simp_all add: armed_def silent_env_def state_after_def demo_defs handler_defs
        CONNECTIVITY_CHECK_INTERVAL_def)
  have b: "send_ok second_env (Ping (randomUint32 second_env))"
    "lastMessageReceivedAt second_env < now second_env - CONNECTIVITY_CHECK_INTERVAL"
    "randomUint32 second_env = 8"
    by (simp_all add: second_env_def silent_env_def demo_env_def CONNECTIVITY_CHECK_INTERVAL_def)
  from r have "inv armed" by (rule inv_reachable)
  from step_total [OF this] obtain s1 o1 where
    s1: "step second_env (Interval_fires T_connectivity) armed = Inr (s1, o1)" by blast
  from ping_timer_tracked [OF r s1] a b
  have c1: "pingTimes s1 8 = Some (now second_env)" "timeouts s1 (T_ping 8) = Some PING_TIMEOUT_MS"
    "pingTimes armed 7 \<noteq> None" "timeouts s1 (T_ping 7) \<noteq> None"
    by auto
  with s1 have e1: "\<exists>s' out. step second_env (Interval_fires T_connectivity) armed = Inr (s', out)
         \<and> pingTimes s' 8 = Some (now second_env)
         \<and> timeouts s' (T_ping 8) = Some PING_TIMEOUT_MS
         \<and> timeouts s' (T_ping 7) \<noteq> None"
    by blast
  note rh = reachable_handshaken
  have ah: "intervals handshaken T_connectivity \<noteq> None" using handshaken_flags by simp
  have th: "timeouts handshaken (T_ping 7) = None"
    by (simp add: handshaken_def state_after_def demo_defs handler_defs)
  have bb: "send_ok boundary_env (Ping (randomUint32 boundary_env))"
    "lastMessageReceivedAt boundary_env = now boundary_env - CONNECTIVITY_CHECK_INTERVAL"
    "randomUint32 boundary_env = 7"
    by (simp_all add: boundary_env_def demo_env_def CONNECTIVITY_CHECK_INTERVAL_def)
  from rh have ih: "inv handshaken" by (rule inv_reachable)
  from step_total [OF ih] obtain s2 o2 where
    s2: "step boundary_env (Interval_fires T_connectivity) handshaken = Inr (s2, o2)" by blast
  from ping_timer_tracked [OF rh s2] ah bb th
  have c2: "pingTimes s2 7 = Some (now boundary_env)" "timeouts s2 (T_ping 7) = None"
    by auto
  with s2 have e2: "\<exists>s' out. step boundary_env (Interval_fires T_connectivity) handshaken = Inr (s', out)
         \<and> pingTimes s' 7 = Some (now boundary_env)
         \<and> timeouts s' (T_ping 7) = None"
    by blast
  have bf: "\<not> send_ok failing_env (Ping (randomUint32 failing_env))"
    by (simp add: failing_env_def)
  from step_total [OF ih] obtain s3 o3 where
    s3: "step failing_env (Interval_fires T_connectivity) handshaken = Inr (s3, o3)" by blast
  from ping_timer_tracked [OF rh s3] ah bf
  have c3: "pingTimes s3 = pingTimes handshaken" "timeouts s3 = timeouts handshaken"
    by auto
  with s3 have e3: "\<exists>s' out. step failing_env (Interval_fires T_connectivity) handshaken = Inr (s', out)
         \<and> pingTimes s' = pingTimes handshaken \<and> timeouts s' = timeouts handshaken"
    by blast
  have ne: "Interval_fires T_connectivity \<noteq> Receive (PongMessage 7)" by simp
  from r a(1) b(1) b(2) a(2) c1(3) ne e1 rh ah bb(1) bb(2) th e2 bf e3
  show ?thesis by (intro conjI)
qed

section \<open>Failed sends\<close>

text \<open>
  C4, as the claim states it, fails: the pong that answers a ping is sent without reading
  the result, so a failed pong send is followed by no close.
\<close>

theorem failed_pong_not_closed:
  "\<not> send_ok failing_env (Pong 3)
   \<and> step failing_env (Receive (PingMessage 3)) handshaken = Inr (handshaken, [Channel (Pong 3)])"
proof -
  have "canAcceptMessage handshaken PING" using handshaken_flags by (simp add: canAcceptMessage_def)
  then show ?thesis by (simp add: onPing_def emit_def failing_env_def)
qed

lemma handshake_send_ok:
  "\<forall>c. result_is_read c \<longrightarrow> f c = send_ok e c \<Longrightarrow>
     handshake (e\<lparr>send_ok := f\<rparr>) s = handshake e s"
  by (simp add: handshake_def Let_def cong: if_cong)

lemma relay_filter_send_ok: "relay_filter (e\<lparr>send_ok := f\<rparr>) s = relay_filter e s"
  by (simp add: relay_filter_def fun_eq_iff cong: if_cong option.case_cong)

lemma getAddr_filter_send_ok: "getAddr_filter (e\<lparr>send_ok := f\<rparr>) s = getAddr_filter e s"
  by (simp add: getAddr_filter_def fun_eq_iff cong: if_cong option.case_cong)

lemma step_send_ok:
  assumes "\<forall>c. result_is_read c \<longrightarrow> f c = send_ok e c"
  shows "step (e\<lparr>send_ok := f\<rparr>) ev s = step e ev s"
proof (cases ev)
  case Call_handshake
  with assms show ?thesis by (simp add: handshake_send_ok)
next
  case (Call_relayAddresses as)
  then show ?thesis by simp
next
  case (AddrQueue_fires as)
  then show ?thesis by (simp add: relayNow_def relay_filter_send_ok Let_def cong: if_cong)
next
  case (Receive msg)
  show ?thesis
  proof (cases msg)
    case (VersionMessage m)
    with Receive assms show ?thesis by (simp add: onVersion_def handshake_send_ok Let_def cong: if_cong option.case_cong)
  next
    case (VerAckMessage m)
    with Receive show ?thesis by simp
  next
    case (AddrMessage as)
    with Receive show ?thesis by (simp add: onAddr_def cong: if_cong)
  next
    case (GetAddrMessage pm sm)
    with Receive show ?thesis by (simp add: onGetAddr_def getAddr_filter_send_ok Let_def cong: if_cong)
  next
    case (PingMessage n)
    with Receive show ?thesis by simp
  next
    case (PongMessage n)
    with Receive show ?thesis by (simp add: onPong_def Let_def cong: if_cong option.case_cong)
  qed
next
  case (Timeout_fires k)
  then show ?thesis by simp
next
  case (Interval_fires k)
  with assms show ?thesis by (cases k) (simp_all add: checkConnectivity_def Let_def cong: if_cong)
next
  case Channel_closes
  then show ?thesis by simp
qed

text \<open>
  C4, amended. The agent reads the result of two sends only, \<open>version\<close> and \<open>ping\<close>: what
  any event does to the state and which effects it causes is the same whatever the
  other sends (verack, addr, getAddr, pong, reject) return. A failed ping send closes
  the channel with \<open>SENDING_PING_MESSAGE_FAILED\<close> and changes nothing else.
\<close>

theorem unread_send_results:
  "((\<forall>c. result_is_read c \<longrightarrow> f c = send_ok e c) \<longrightarrow>
       step (e\<lparr>send_ok := f\<rparr>) ev s = step e ev s)
   \<and> (intervals s T_connectivity \<noteq> None \<and> \<not> send_ok e (Ping (randomUint32 e)) \<longrightarrow>
       step e (Interval_fires T_connectivity) s
         = Inr (s, [Channel (Ping (randomUint32 e)),
                    Channel (Close SENDING_PING_MESSAGE_FAILED)]))"
  using step_send_ok [of f e ev s] by (auto simp: checkConnectivity_def emit_def)

theorem unread_send_results_witness:
  "\<not> result_is_read (Pong 3)
   \<and> step (demo_env\<lparr>send_ok := result_is_read\<rparr>) (Receive (PingMessage 3)) handshaken
       = step demo_env (Receive (PingMessage 3)) handshaken
   \<and> intervals handshaken T_connectivity \<noteq> None
   \<and> \<not> send_ok failing_env (Ping (randomUint32 failing_env))
   \<and> step failing_env (Interval_fires T_connectivity) handshaken
       = Inr (handshaken, [Channel (Ping (randomUint32 failing_env)),
                           Channel (Close SENDING_PING_MESSAGE_FAILED)])"
proof -
  have a: "\<forall>c. result_is_read c \<longrightarrow> result_is_read c = send_ok demo_env c"
    by (simp add: demo_env_def)
  have b: "intervals handshaken T_connectivity \<noteq> None" using handshaken_flags by simp
  have c: "\<not> send_ok failing_env (Ping (randomUint32 failing_env))"
    by (simp add: failing_env_def)
  note t1 = unread_send_results [of result_is_read demo_env "Receive (PingMessage 3)" handshaken,
      THEN conjunct1, THEN mp, OF a]
  have pre: "intervals handshaken T_connectivity \<noteq> None
      \<and> \<not> send_ok failing_env (Ping (randomUint32 failing_env))"
    using b c by (intro conjI)
  note t2 = unread_send_results [of _ failing_env _ handshaken, THEN conjunct2, THEN mp, OF pre]
  have d: "\<not> result_is_read (Pong 3)" by simp
  from d t1 b c t2 show ?thesis by (intro conjI)
qed

section \<open>Address relay\<close>

lemma relay_filter_spec:
  assumes wf: "known_wf (knownAddresses s)"
  shows "relay_filter e s a = relay_spec e s a"
proof (cases "hs_get (knownAddresses s) a")
  case None
  then show ?thesis by (simp add: relay_filter_def relay_spec_def)
next
  case (Some k)
  with wf have "hashCode k = hashCode a" unfolding known_wf_def hs_get_def by blast
  then have "protocol k = protocol a" by (simp add: hashCode_def)
  with Some show ?thesis by (simp add: relay_filter_def relay_spec_def)
qed

text \<open>
  C5. When the relay queue fires in a reachable state, an address it hands over is in
  the addr frame the agent sends if and only if it passes the filter as the
  specification words it (\<open>relay_spec\<close>), and every address of a frame sent is in
  \<open>knownAddresses\<close> afterwards.
\<close>

theorem relayNow_filter:
  assumes "reachable s" and "relayNow e released s = Inr (s', out)"
    and "a \<in> set (dequeueMulti released MAX_ADDR_RELAY_PER_MESSAGE)"
  shows "((\<exists>as. Channel (Addr as) \<in> set out \<and> a \<in> set as) \<longleftrightarrow> relay_spec e s a)
     \<and> (\<forall>as b. Channel (Addr as) \<in> set out \<longrightarrow> b \<in> set as \<longrightarrow> hs_contains (knownAddresses s') b)"
proof -
  let ?addresses = "dequeueMulti released MAX_ADDR_RELAY_PER_MESSAGE"
  let ?filtered = "filter (relay_filter e s) ?addresses"
  from assms(1) have wf: "known_wf (knownAddresses s)"
    using inv_reachable by (auto simp: inv_def)
  from assms(3) have ne: "length ?addresses \<noteq> 0" by auto
  show ?thesis
  proof (cases "?filtered = []")
    case True
    with assms(2) ne have "out = []" by (simp add: relayNow_def Let_def ret_def)
    moreover from True assms(3) have "\<not> relay_filter e s a" by (auto simp: filter_empty_conv)
    ultimately show ?thesis using relay_filter_spec [OF wf] by simp
  next
    case False
    with assms(2) ne have out: "out = [Channel (Addr ?filtered)]"
      and s': "knownAddresses s' = fold (\<lambda>a m. hs_add m a) ?filtered (knownAddresses s)"
      by (auto simp: relayNow_def Let_def emit_def)
    from out assms(3) have "(\<exists>as. Channel (Addr as) \<in> set out \<and> a \<in> set as) \<longleftrightarrow> relay_filter e s a"
      by auto
    moreover from out s' have "\<forall>as b. Channel (Addr as) \<in> set out \<longrightarrow> b \<in> set as
        \<longrightarrow> hs_contains (knownAddresses s') b"
      by (auto intro: hs_contains_fold)
    ultimately show ?thesis using relay_filter_spec [OF wf] by simp
  qed
qed

theorem relayNow_filter_witness:
  "reachable handshaken
   \<and> third_address \<in> set (dequeueMulti [third_address] MAX_ADDR_RELAY_PER_MESSAGE)
   \<and> (\<exists>s' out. relayNow demo_env [third_address] handshaken = Inr (s', out)
        \<and> Channel (Addr [third_address]) \<in> set out
        \<and> relay_spec demo_env handshaken third_address
        \<and> hs_contains (knownAddresses s') third_address)"
proof -
  have m: "third_address \<in> set (dequeueMulti [third_address] MAX_ADDR_RELAY_PER_MESSAGE)"
    by (simp add: dequeueMulti_def MAX_ADDR_RELAY_PER_MESSAGE_def)
  have "\<exists>s'. relayNow demo_env [third_address] handshaken = Inr (s', [Channel (Addr [third_address])])"
    by (simp add: relayNow_def dequeueMulti_def MAX_ADDR_RELAY_PER_MESSAGE_def relay_filter_def
        hs_get_def third_address_def handshaken_def state_after_def demo_defs handler_defs)
  then obtain s' where r: "relayNow demo_env [third_address] handshaken
      = Inr (s', [Channel (Addr [third_address])])" by blast
  from relayNow_filter [OF reachable_handshaken r m] reachable_handshaken m r
  show ?thesis by auto
qed

section \<open>Inbound addr messages\<close>

text \<open>
  C6. For an admitted addr message: a batch longer than \<open>MAX_ADDR_PER_MESSAGE\<close> closes
  the channel with \<open>ADDR_MESSAGE_TOO_LARGE\<close> and does nothing else; a batch of exactly
  \<open>MAX_ADDR_PER_MESSAGE\<close> addresses is never closed for its size; and a batch within the
  size limit that the inbound rate limiter refuses closes the channel with
  \<open>RATE_LIMIT_EXCEEDED\<close>.
\<close>

theorem onAddr_limits:
  assumes "canAcceptMessage s ADDR"
  shows "(length addresses > MAX_ADDR_PER_MESSAGE \<longrightarrow>
            onAddr e addresses s = Inr (s, [Channel (Close ADDR_MESSAGE_TOO_LARGE)]))
     \<and> (length addresses = MAX_ADDR_PER_MESSAGE \<longrightarrow>
            (\<exists>s' out. onAddr e addresses s = Inr (s', out)
               \<and> Channel (Close ADDR_MESSAGE_TOO_LARGE) \<notin> set out))
     \<and> (length addresses \<le> MAX_ADDR_PER_MESSAGE \<and> \<not> addrLimit_note e (length addresses) \<longrightarrow>
            onAddr e addresses s
              = Inr (s, [AddrLimit_note (length addresses), Channel (Close RATE_LIMIT_EXCEEDED)]))"
proof -
  have "\<exists>s' out. onAddr e addresses s = Inr (s', out)
               \<and> Channel (Close ADDR_MESSAGE_TOO_LARGE) \<notin> set out"
    if "length addresses = MAX_ADDR_PER_MESSAGE"
  proof (cases "checkAddresses addresses s")
    case (Pair s1 r)
    have "r \<noteq> Some ADDR_MESSAGE_TOO_LARGE"
      using Pair by (induction addresses arbitrary: s) (auto split: if_splits)
    with Pair that assms show ?thesis
      by (cases r) (auto simp: onAddr_def emit_def)
  qed
  with assms show ?thesis by (auto simp: onAddr_def emit_def)
qed

theorem onAddr_limits_witness:
  "canAcceptMessage handshaken ADDR
   \<and> length (replicate 1001 third_address) > MAX_ADDR_PER_MESSAGE
   \<and> onAddr demo_env (replicate 1001 third_address) handshaken
       = Inr (handshaken, [Channel (Close ADDR_MESSAGE_TOO_LARGE)])
   \<and> length (replicate 1000 third_address) = MAX_ADDR_PER_MESSAGE
   \<and> (\<exists>s' out. onAddr demo_env (replicate 1000 third_address) handshaken = Inr (s', out)
         \<and> Channel (Close ADDR_MESSAGE_TOO_LARGE) \<notin> set out)
   \<and> length [third_address] \<le> MAX_ADDR_PER_MESSAGE
   \<and> \<not> addrLimit_note limited_env (length [third_address])
   \<and> onAddr limited_env [third_address] handshaken
       = Inr (handshaken, [AddrLimit_note (length [third_address]),
                           Channel (Close RATE_LIMIT_EXCEEDED)])"
proof -
  have c: "canAcceptMessage handshaken ADDR"
    using handshaken_flags by (simp add: canAcceptMessage_def)
  have l1: "length (replicate 1001 third_address) > MAX_ADDR_PER_MESSAGE"
    unfolding length_replicate MAX_ADDR_PER_MESSAGE_def by simp
  have l2: "length (replicate 1000 third_address) = MAX_ADDR_PER_MESSAGE"
    unfolding length_replicate MAX_ADDR_PER_MESSAGE_def by simp
  have l3: "length [third_address] \<le> MAX_ADDR_PER_MESSAGE"
    by (simp add: MAX_ADDR_PER_MESSAGE_def)
  have l4: "\<not> addrLimit_note limited_env (length [third_address])"
    by (simp add: limited_env_def)
  note t1 = onAddr_limits [OF c, of "replicate 1001 third_address" demo_env]
  note t2 = onAddr_limits [OF c, of "replicate 1000 third_address" demo_env]
  note t3 = onAddr_limits [OF c, of "[third_address]" limited_env]
  from t1 l1 have a1: "onAddr demo_env (replicate 1001 third_address) handshaken
       = Inr (handshaken, [Channel (Close ADDR_MESSAGE_TOO_LARGE)])" by blast
  from t2 l2 have a2: "\<exists>s' out. onAddr demo_env (replicate 1000 third_address) handshaken = Inr (s', out)
         \<and> Channel (Close ADDR_MESSAGE_TOO_LARGE) \<notin> set out" by blast
  from t3 l3 l4 have a3: "onAddr limited_env [third_address] handshaken
       = Inr (handshaken, [AddrLimit_note (length [third_address]),
                           Channel (Close RATE_LIMIT_EXCEEDED)])" by blast
  from c l1 a1 l2 a2 l3 l4 a3 show ?thesis by blast
qed

section \<open>Retrying the version message\<close>

lemma handshake_failed_send:
  assumes "\<not> versionSent s" and "\<not> send_ok e (version_frame e s)"
  shows "handshake e s = Inr (s\<lparr>versionAttempts := versionAttempts s + 1\<rparr>,
                              [Channel (version_frame e s), failed_version_outcome e s])"
  using assms
  by (simp add: handshake_def Let_def emit_def version_frame_def failed_version_outcome_def)

lemma failed_handshakes_run:
  assumes "\<not> versionSent s"
    and "\<forall>e\<in>set es. \<not> send_ok e (version_frame e s) \<and> \<not> closed_in_handshake e"
  shows "\<exists>out. run (map (\<lambda>e. (e, Call_handshake)) es) s
            = Inr (s\<lparr>versionAttempts := versionAttempts s + length es\<rparr>, out)
         \<and> (es = [] \<longrightarrow> out = [])
         \<and> (es \<noteq> [] \<longrightarrow> out \<noteq> [] \<and> last out =
               (if VERSION_ATTEMPTS_MAX \<le> versionAttempts s + length es
                then Channel (Close SENDING_OF_VERSION_MESSAGE_FAILED)
                else SetTimeout_handshake VERSION_RETRY_DELAY))"
  using assms
proof (induction es arbitrary: s)
  case Nil
  then show ?case by (simp add: ret_def)
next
  case (Cons e es)
  let ?s1 = "s\<lparr>versionAttempts := versionAttempts s + 1\<rparr>"
  from Cons.prems have h: "handshake e s = Inr (?s1, [Channel (version_frame e s), failed_version_outcome e s])"
    by (simp add: handshake_failed_send)
  have p1: "\<not> versionSent ?s1" using Cons.prems by simp
  have p2: "\<forall>e\<in>set es. \<not> send_ok e (version_frame e ?s1) \<and> \<not> closed_in_handshake e"
    using Cons.prems by (simp add: version_frame_def)
  from Cons.IH [OF p1 p2] obtain out where
    r: "run (map (\<lambda>e. (e, Call_handshake)) es) ?s1
            = Inr (?s1\<lparr>versionAttempts := versionAttempts ?s1 + length es\<rparr>, out)"
    and l0: "es = [] \<longrightarrow> out = []"
    and l: "es \<noteq> [] \<longrightarrow> out \<noteq> [] \<and> last out =
               (if VERSION_ATTEMPTS_MAX \<le> versionAttempts ?s1 + length es
                then Channel (Close SENDING_OF_VERSION_MESSAGE_FAILED)
                else SetTimeout_handshake VERSION_RETRY_DELAY)"
    by blast
  have run: "run (map (\<lambda>e. (e, Call_handshake)) (e # es)) s
      = Inr (s\<lparr>versionAttempts := versionAttempts s + length (e # es)\<rparr>,
             [Channel (version_frame e s), failed_version_outcome e s] @ out)"
    using h r by (simp add: andThen_def)
  have "last ([Channel (version_frame e s), failed_version_outcome e s] @ out) =
               (if VERSION_ATTEMPTS_MAX \<le> versionAttempts s + length (e # es)
                then Channel (Close SENDING_OF_VERSION_MESSAGE_FAILED)
                else SetTimeout_handshake VERSION_RETRY_DELAY)"
  proof (cases "es = []")
    case True
    with l0 have "out = []" by simp
    with True Cons.prems show ?thesis by (simp add: failed_version_outcome_def)
  next
    case False
    with l show ?thesis by simp
  qed
  with run show ?case by auto
qed

text \<open>
  C7. When \<open>handshake()\<close> has not yet sent the version and the send fails,
  \<open>versionAttempts\<close> is incremented; then, if it has reached \<open>VERSION_ATTEMPTS_MAX\<close> or
  the channel is closed, the channel is closed with \<open>SENDING_OF_VERSION_MESSAGE_FAILED\<close>,
  and otherwise \<open>handshake\<close> is scheduled again after \<open>VERSION_RETRY_DELAY\<close>. From a new
  agent on an open channel, the ninth consecutive failure schedules a retry and the
  tenth closes.
\<close>

theorem version_send_failure:
  "(\<not> versionSent s \<and> \<not> send_ok e (version_frame e s) \<longrightarrow>
      handshake e s = Inr (s\<lparr>versionAttempts := versionAttempts s + 1\<rparr>,
         [Channel (version_frame e s),
          if VERSION_ATTEMPTS_MAX \<le> versionAttempts s + 1 \<or> closed_in_handshake e
          then Channel (Close SENDING_OF_VERSION_MESSAGE_FAILED)
          else SetTimeout_handshake VERSION_RETRY_DELAY]))
   \<and> ((\<forall>e\<in>set es. \<not> send_ok e (version_frame e (NetworkAgent cfg channel_pa nonce))
                    \<and> \<not> closed_in_handshake e) \<longrightarrow>
        (\<exists>s' out. run (map (\<lambda>e. (e, Call_handshake)) es) (NetworkAgent cfg channel_pa nonce)
                     = Inr (s', out)
           \<and> versionAttempts s' = length es
           \<and> (length es = 9 \<longrightarrow> last out = SetTimeout_handshake VERSION_RETRY_DELAY)
           \<and> (length es = 10 \<longrightarrow> last out = Channel (Close SENDING_OF_VERSION_MESSAGE_FAILED))))"
proof -
  let ?s0 = "NetworkAgent cfg channel_pa nonce"
  have a: "\<not> versionSent ?s0" "versionAttempts ?s0 = 0" by (simp_all add: NetworkAgent_def)
  have "\<exists>s' out. run (map (\<lambda>e. (e, Call_handshake)) es) ?s0 = Inr (s', out)
           \<and> versionAttempts s' = length es
           \<and> (length es = 9 \<longrightarrow> last out = SetTimeout_handshake VERSION_RETRY_DELAY)
           \<and> (length es = 10 \<longrightarrow> last out = Channel (Close SENDING_OF_VERSION_MESSAGE_FAILED))"
    if f: "\<forall>e\<in>set es. \<not> send_ok e (version_frame e ?s0) \<and> \<not> closed_in_handshake e"
  proof -
    from failed_handshakes_run [OF a(1) f] obtain out where
      r: "run (map (\<lambda>e. (e, Call_handshake)) es) ?s0
            = Inr (?s0\<lparr>versionAttempts := versionAttempts ?s0 + length es\<rparr>, out)"
      and l: "es \<noteq> [] \<longrightarrow> out \<noteq> [] \<and> last out =
               (if VERSION_ATTEMPTS_MAX \<le> versionAttempts ?s0 + length es
                then Channel (Close SENDING_OF_VERSION_MESSAGE_FAILED)
                else SetTimeout_handshake VERSION_RETRY_DELAY)"
      by blast
    from l a(2) have "length es = 9 \<longrightarrow> last out = SetTimeout_handshake VERSION_RETRY_DELAY"
      and "length es = 10 \<longrightarrow> last out = Channel (Close SENDING_OF_VERSION_MESSAGE_FAILED)"
      by (auto simp: VERSION_ATTEMPTS_MAX_def)
    with r a(2) show ?thesis by simp
  qed
  then show ?thesis
    using handshake_failed_send [of s e] by (simp add: failed_version_outcome_def)
qed

theorem version_send_failure_witness:
  "\<not> versionSent demo_agent \<and> \<not> send_ok failing_env (version_frame failing_env demo_agent)
   \<and> handshake failing_env demo_agent
       = Inr (demo_agent\<lparr>versionAttempts := 1\<rparr>,
              [Channel (version_frame failing_env demo_agent),
               SetTimeout_handshake VERSION_RETRY_DELAY])
   \<and> (\<exists>s' out. run (map (\<lambda>e. (e, Call_handshake)) (replicate 9 failing_env)) demo_agent
                  = Inr (s', out)
         \<and> versionAttempts s' = 9 \<and> last out = SetTimeout_handshake VERSION_RETRY_DELAY)
   \<and> (\<exists>s' out. run (map (\<lambda>e. (e, Call_handshake)) (replicate 10 failing_env)) demo_agent
                  = Inr (s', out)
         \<and> versionAttempts s' = 10
         \<and> last out = Channel (Close SENDING_OF_VERSION_MESSAGE_FAILED))"
proof -
  have a: "\<not> versionSent demo_agent" "versionAttempts demo_agent = 0"
    by (simp_all add: demo_agent_def NetworkAgent_def)
  have b: "\<not> send_ok failing_env c" "\<not> closed_in_handshake failing_env" for c
    by (simp_all add: failing_env_def demo_env_def)
  have f: "\<forall>e\<in>set (replicate n failing_env).
      \<not> send_ok e (version_frame e (NetworkAgent demo_config (Some remote_address) [4]))
      \<and> \<not> closed_in_handshake e" for n
    using b by simp
  note t = version_send_failure [of demo_agent failing_env _ demo_config "Some remote_address" "[4]"]
  from t [of "[]"] a b have 1: "handshake failing_env demo_agent
       = Inr (demo_agent\<lparr>versionAttempts := 1\<rparr>,
              [Channel (version_frame failing_env demo_agent),
               SetTimeout_handshake VERSION_RETRY_DELAY])"
    by (simp add: VERSION_ATTEMPTS_MAX_def)
  from t [of "replicate 9 failing_env"] f [of 9]
  have 2: "\<exists>s' out. run (map (\<lambda>e. (e, Call_handshake)) (replicate 9 failing_env)) demo_agent
                  = Inr (s', out)
         \<and> versionAttempts s' = 9 \<and> last out = SetTimeout_handshake VERSION_RETRY_DELAY"
    unfolding demo_agent_def length_replicate by blast
  from t [of "replicate 10 failing_env"] f [of 10]
  have 3: "\<exists>s' out. run (map (\<lambda>e. (e, Call_handshake)) (replicate 10 failing_env)) demo_agent
                  = Inr (s', out)
         \<and> versionAttempts s' = 10
         \<and> last out = Channel (Close SENDING_OF_VERSION_MESSAGE_FAILED)"
    unfolding demo_agent_def length_replicate by blast
  from a b 1 2 3 show ?thesis by blast
qed

section \<open>Sending the verack\<close>

text \<open>
  C8. In every reachable state \<open>verackSent\<close> implies \<open>peerAddressVerified\<close>, and no event
  makes the assertion at the top of \<open>_sendVerAck\<close> fail.
\<close>

theorem verackSent_implies_verified:
  "reachable s \<Longrightarrow>
     (verackSent s \<longrightarrow> peerAddressVerified s) \<and> step e ev s \<noteq> Inl AssertionError"
proof -
  assume "reachable s"
  then have "inv s" by (rule inv_reachable)
  then have "verackSent s \<longrightarrow> peerAddressVerified s" by (simp add: inv_def)
  moreover have "step e ev s \<noteq> Inl AssertionError"
  proof
    assume "step e ev s = Inl AssertionError"
    from step_Inl [OF this] show False by simp
  qed
  ultimately show ?thesis ..
qed

theorem verackSent_implies_verified_witness:
  "reachable handshaken \<and> verackSent handshaken \<and> peerAddressVerified handshaken
   \<and> step demo_env Call_handshake handshaken \<noteq> Inl AssertionError"
  using verackSent_implies_verified [OF reachable_handshaken, of demo_env Call_handshake]
    reachable_handshaken handshaken_flags by simp

section \<open>An addr batch that fails half way\<close>

lemma checkAddresses_fail:
  "k < length as \<Longrightarrow> \<forall>i<k. addr_ok (as ! i) \<Longrightarrow> \<not> addr_ok (as ! k) \<Longrightarrow>
     checkAddresses as s
       = (s\<lparr>knownAddresses := fold (\<lambda>a m. hs_add m a) (take k as) (knownAddresses s)\<rparr>,
          Some (addr_close_reason (as ! k)))"
proof (induction as arbitrary: s k)
  case Nil
  then show ?case by simp
next
  case (Cons a as)
  show ?case
  proof (cases k)
    case 0
    with Cons.prems show ?thesis by (auto simp: addr_ok_def addr_close_reason_def)
  next
    case (Suc j)
    with Cons.prems have ok: "addr_ok a" by auto
    from Suc Cons.prems have p: "j < length as" "\<forall>i<j. addr_ok (as ! i)" "\<not> addr_ok (as ! j)"
      by auto
    from Cons.IH [OF p] ok Suc show ?thesis by (auto simp: addr_ok_def)
  qed
qed

lemma checkAddresses_pass:
  "checkAddresses as s = (s', None) \<Longrightarrow> \<forall>a\<in>set as. addr_ok a"
  by (induction as arbitrary: s) (auto simp: addr_ok_def split: if_splits)

text \<open>
  C9. For an admitted addr batch within the size and rate limits: if the address at
  index \<open>k\<close> is the first to fail a check, the channel is closed with \<open>INVALID_ADDR\<close>
  (bad signature) or \<open>ADDR_NOT_GLOBALLY_REACHABLE\<close>, the addresses before index \<open>k\<close> have
  been inserted into \<open>knownAddresses\<close> and stay there, and neither the address book's
  \<open>add\<close> nor the \<open>addr\<close> event happens; these two happen only if every address of the
  batch passes.
\<close>

theorem onAddr_not_atomic:
  assumes "canAcceptMessage s ADDR" and "length addresses \<le> MAX_ADDR_PER_MESSAGE"
    and "addrLimit_note e (length addresses)"
  shows "(k < length addresses \<and> (\<forall>i<k. addr_ok (addresses ! i)) \<and> \<not> addr_ok (addresses ! k) \<longrightarrow>
          onAddr e addresses s
            = Inr (s\<lparr>knownAddresses :=
                       fold (\<lambda>a m. hs_add m a) (take k addresses) (knownAddresses s)\<rparr>,
                   [AddrLimit_note (length addresses),
                    Channel (Close (if \<not> verifySignature (addresses ! k) then INVALID_ADDR
                                    else ADDR_NOT_GLOBALLY_REACHABLE))])
          \<and> (\<forall>i<k. hs_contains
                 (fold (\<lambda>a m. hs_add m a) (take k addresses) (knownAddresses s)) (addresses ! i)))
     \<and> (\<forall>s' out as a. onAddr e addresses s = Inr (s', out)
            \<and> (Addresses_add as \<in> set out \<or> Fire_addr as a \<in> set out)
          \<longrightarrow> (\<forall>b\<in>set addresses. addr_ok b))"
proof -
  have 1: "onAddr e addresses s
            = Inr (s\<lparr>knownAddresses :=
                       fold (\<lambda>a m. hs_add m a) (take k addresses) (knownAddresses s)\<rparr>,
                   [AddrLimit_note (length addresses),
                    Channel (Close (if \<not> verifySignature (addresses ! k) then INVALID_ADDR
                                    else ADDR_NOT_GLOBALLY_REACHABLE))])"
    if "k < length addresses" "\<forall>i<k. addr_ok (addresses ! i)" "\<not> addr_ok (addresses ! k)"
    using checkAddresses_fail [OF that, of s] assms
    by (simp add: onAddr_def emit_def addr_close_reason_def)
  have 2: "\<forall>i<k. hs_contains
                 (fold (\<lambda>a m. hs_add m a) (take k addresses) (knownAddresses s)) (addresses ! i)"
    if "k < length addresses"
  proof (intro allI impI)
    fix i assume "i < k"
    with that have "addresses ! i \<in> set (take k addresses)"
      by (auto simp: in_set_conv_nth intro!: exI [of _ i])
    then show "hs_contains (fold (\<lambda>a m. hs_add m a) (take k addresses) (knownAddresses s))
                 (addresses ! i)"
      by (simp add: hs_contains_fold)
  qed
  have 3: "\<forall>b\<in>set addresses. addr_ok b"
    if "onAddr e addresses s = Inr (s', out)"
      "Addresses_add as \<in> set out \<or> Fire_addr as a \<in> set out" for s' out as a
  proof (cases "checkAddresses addresses s")
    case (Pair s1 r)
    with that assms have "r = None"
      by (cases r) (auto simp: onAddr_def emit_def)
    with Pair show ?thesis by (auto dest: checkAddresses_pass)
  qed
  show ?thesis
  proof (intro conjI impI allI)
    assume h: "k < length addresses \<and> (\<forall>i<k. addr_ok (addresses ! i)) \<and> \<not> addr_ok (addresses ! k)"
    then have h1: "k < length addresses" and h2: "\<forall>i<k. addr_ok (addresses ! i)"
      and h3: "\<not> addr_ok (addresses ! k)" by simp_all
    from 1 [OF h1 h2 h3] show "onAddr e addresses s
            = Inr (s\<lparr>knownAddresses :=
                       fold (\<lambda>a m. hs_add m a) (take k addresses) (knownAddresses s)\<rparr>,
                   [AddrLimit_note (length addresses),
                    Channel (Close (if \<not> verifySignature (addresses ! k) then INVALID_ADDR
                                    else ADDR_NOT_GLOBALLY_REACHABLE))])" .
    fix i assume "i < k"
    with 2 [OF h1] show "hs_contains
                 (fold (\<lambda>a m. hs_add m a) (take k addresses) (knownAddresses s)) (addresses ! i)"
      by simp
  next
    fix s' out as a
    assume "onAddr e addresses s = Inr (s', out)
            \<and> (Addresses_add as \<in> set out \<or> Fire_addr as a \<in> set out)"
    then have "onAddr e addresses s = Inr (s', out)"
      "Addresses_add as \<in> set out \<or> Fire_addr as a \<in> set out" by simp_all
    then show "\<forall>b\<in>set addresses. addr_ok b" by (rule 3)
  qed
qed

theorem onAddr_not_atomic_witness:
  "canAcceptMessage handshaken ADDR
   \<and> length [third_address, forged_address] \<le> MAX_ADDR_PER_MESSAGE
   \<and> addrLimit_note demo_env (length [third_address, forged_address])
   \<and> 1 < length [third_address, forged_address]
   \<and> addr_ok ([third_address, forged_address] ! 0)
   \<and> \<not> addr_ok ([third_address, forged_address] ! 1)
   \<and> onAddr demo_env [third_address, forged_address] handshaken
        = Inr (handshaken\<lparr>knownAddresses := hs_add (knownAddresses handshaken) third_address\<rparr>,
               [AddrLimit_note 2, Channel (Close INVALID_ADDR)])
   \<and> hs_contains (hs_add (knownAddresses handshaken) third_address) third_address"
proof -
  have c: "canAcceptMessage handshaken ADDR"
    using handshaken_flags by (simp add: canAcceptMessage_def)
  have l: "length [third_address, forged_address] \<le> MAX_ADDR_PER_MESSAGE"
    by (simp add: MAX_ADDR_PER_MESSAGE_def)
  have n: "addrLimit_note demo_env (length [third_address, forged_address])"
    by (simp add: demo_env_def)
  have k: "(1::nat) < length [third_address, forged_address]"
    "\<forall>i<(1::nat). addr_ok ([third_address, forged_address] ! i)"
    "addr_ok ([third_address, forged_address] ! 0)"
    "\<not> addr_ok ([third_address, forged_address] ! 1)"
    "\<not> verifySignature ([third_address, forged_address] ! 1)"
    by (simp_all add: addr_ok_def third_address_def forged_address_def)
  have pre: "(1::nat) < length [third_address, forged_address]
      \<and> (\<forall>i<(1::nat). addr_ok ([third_address, forged_address] ! i))
      \<and> \<not> addr_ok ([third_address, forged_address] ! 1)"
    using k(1,2,4) by (intro conjI)
  note t = onAddr_not_atomic [OF c l n, of 1, THEN conjunct1, rule_format, OF pre]
  have f: "fold (\<lambda>a m. hs_add m a) (take 1 [third_address, forged_address]) m
      = hs_add m third_address" for m
    by simp
  have v: "(if \<not> verifySignature ([third_address, forged_address] ! 1) then INVALID_ADDR
            else ADDR_NOT_GLOBALLY_REACHABLE) = INVALID_ADDR"
    using k(5) by simp
  have len: "length [third_address, forged_address] = 2" by simp
  from t have e1: "onAddr demo_env [third_address, forged_address] handshaken
        = Inr (handshaken\<lparr>knownAddresses := hs_add (knownAddresses handshaken) third_address\<rparr>,
               [AddrLimit_note 2, Channel (Close INVALID_ADDR)])"
    unfolding f v len by (rule conjunct1)
  from t have "\<forall>i<1. hs_contains (hs_add (knownAddresses handshaken) third_address)
      ([third_address, forged_address] ! i)"
    unfolding f by (rule conjunct2)
  then have e2: "hs_contains (hs_add (knownAddresses handshaken) third_address) third_address"
    by simp
  from c l n k(1) k(3) k(4) e1 e2 show ?thesis by (intro conjI)
qed

section \<open>Hash: round trip\<close>

text \<open>
  C10. For every 32-byte hash \<open>h\<close>, \<open>h.serialize()\<close> (called without a buffer) returns a
  buffer of exactly \<open>SERIALIZED_SIZE\<close> bytes, and \<open>Hash.unserialize\<close> of that buffer
  gives back \<open>h\<close>.
\<close>

theorem Hash_roundtrip:
  "length (hash_bytes h) = SERIALIZED_SIZE \<Longrightarrow>
   \<exists>buf. serialize h None = Inr buf \<and> length (buf_bytes buf) = SERIALIZED_SIZE
        \<and> (\<exists>buf'. unserialize buf = Inr (h, buf'))"
  by (cases h) (simp add: serialize_def serializedSize_def new_Buffer_def buf_write_def
      unserialize_def buf_read_def new_Hash_def new_Primitive_def)

theorem Hash_roundtrip_witness:
  "length (hash_bytes (Hash (replicate 32 7))) = SERIALIZED_SIZE \<and>
   (\<exists>buf. serialize (Hash (replicate 32 7)) None = Inr buf
        \<and> length (buf_bytes buf) = SERIALIZED_SIZE
        \<and> (\<exists>buf'. unserialize buf = Inr (Hash (replicate 32 7), buf')))"
  using Hash_roundtrip [of "Hash (replicate 32 7)"] by (simp add: SERIALIZED_SIZE_def)

end
